theory Spec2Isabelle
  imports Complex_Main "HOL-Library.Multiset" "HOL-Library.AList"
begin

section \<open>JavaScript values, errors and strings\<close>

text \<open>
  Payloads handed to the memory are JavaScript values. The code only ever asks whether a
  payload is a string (\<^verbatim>\<open>typeof x === 'string'\<close>), calls string methods on it, compares it
  with \<^verbatim>\<open>Array.prototype.includes\<close> or converts it to a string, so three shapes are kept:
  a string, a plain object (identified by its reference) and \<^verbatim>\<open>undefined\<close>.
  Numbers are mathematical reals (no rounding); counts, timestamps, depths and capacities
  are integers. \<^verbatim>\<open>Date.now()\<close> and \<^verbatim>\<open>generateId()\<close> are arguments of the operations
  that call them (one reading of the clock per operation), and an optional argument
  (\<^verbatim>\<open>importance = 0.5\<close>, \<^verbatim>\<open>memoryType = 'all'\<close>, \<^verbatim>\<open>maxDepth = 3\<close>) is always given.

  A string is the list of the bytes of its UTF-8 encoding (text with an unpaired
  surrogate is left out). On these \<^verbatim>\<open>includes\<close>, \<^verbatim>\<open>split(' ')\<close>, \<^verbatim>\<open>join\<close> and string
  equality are what they are on the UTF-16 code units of JavaScript, and \<^verbatim>\<open>length\<close> is
  \<open>utf16_length\<close>. \<^verbatim>\<open>String.prototype.toLowerCase\<close> is the platform's and folds all of
  Unicode, so every function that lower-cases takes it as its first argument \<open>lc\<close>, and
  what is proved holds for every \<open>lc\<close>. \<open>ascii_lower\<close> is \<^verbatim>\<open>toLowerCase\<close> on ASCII text;
  it stands for \<open>lc\<close> in the examples, which are ASCII.
\<close>

datatype jsvalue = JString string | JObject nat | JUndefined

datatype error = TypeError | SyntaxError

definition lower_char :: "char \<Rightarrow> char" where
  "lower_char c =
     (let n = (of_char c :: nat) in if 65 \<le> n \<and> n \<le> 90 then char_of (n + 32) else c)"

definition ascii_lower :: "string \<Rightarrow> string" where
  "ascii_lower s = map lower_char s"

type_synonym lowercase = "string \<Rightarrow> string"

text \<open>
  \<^verbatim>\<open>s.length\<close>, the number of UTF-16 code units: one for each character of one, two or
  three bytes, two for each character of four bytes.
\<close>

definition utf16_units :: "char \<Rightarrow> nat" where
  "utf16_units b =
     (let n = (of_char b :: nat)
      in if n < 128 then 1 else if n < 192 then 0 else if n < 240 then 1 else 2)"

definition utf16_length :: "string \<Rightarrow> nat" where
  "utf16_length s = sum_list (map utf16_units s)"

text \<open>\<^verbatim>\<open>s.split(sep)\<close> for a one-character separator: never the empty list.\<close>

fun split :: "char \<Rightarrow> string \<Rightarrow> string list" where
  "split sep [] = [[]]"
| "split sep (c # cs) =
     (if c = sep then [] # split sep cs
      else (case split sep cs of [] \<Rightarrow> [[c]] | t # ts \<Rightarrow> (c # t) # ts))"

fun startsWith :: "string \<Rightarrow> string \<Rightarrow> bool" where
  "startsWith s [] = True"
| "startsWith [] (p # ps) = False"
| "startsWith (c # cs) (p # ps) = (c = p \<and> startsWith cs ps)"

text \<open>\<^verbatim>\<open>s.includes(t)\<close>: \<open>t\<close> occurs in \<open>s\<close> as a contiguous substring.\<close>

fun str_includes :: "string \<Rightarrow> string \<Rightarrow> bool" where
  "str_includes [] t = (t = [])"
| "str_includes (c # cs) t = (startsWith (c # cs) t \<or> str_includes cs t)"

section \<open>Relevance score (Memory.calculateRelevance)\<close>

definition calculateRelevance :: "lowercase \<Rightarrow> jsvalue \<Rightarrow> jsvalue \<Rightarrow> real" where
  "calculateRelevance lc query content =
     (case query of
        JString q \<Rightarrow>
          (case content of
             JString c \<Rightarrow>
               (let queryTokens = split CHR '' '' (lc q);
                    contentTokens = split CHR '' '' (lc c);
                    matches = length (filter (\<lambda>token. list_ex (\<lambda>cToken.
                                str_includes cToken token \<or> str_includes token cToken) contentTokens)
                                queryTokens);
                    totalTokens = length queryTokens;
                    similarity = real matches / real totalTokens
                in if str_includes (lc c) (lc q)
                   then min (similarity + 0.5) 1.0
                   else similarity)
           | _ \<Rightarrow> 0)
      | _ \<Rightarrow> 0)"

section \<open>JavaScript \<^verbatim>\<open>Map\<close> and \<^verbatim>\<open>Array.prototype.sort\<close>\<close>

text \<open>
  A \<^verbatim>\<open>Map\<close> iterates in insertion order, so it is an association list with distinct keys:
  \<^verbatim>\<open>set\<close> is \<^const>\<open>AList.update\<close> (an existing key keeps its place, a new key goes last),
  \<^verbatim>\<open>delete\<close> is \<^const>\<open>AList.delete\<close>, \<^verbatim>\<open>get\<close> is \<^const>\<open>map_of\<close>.
\<close>

definition map_has :: "('k \<times> 'v) list \<Rightarrow> 'k \<Rightarrow> bool" where
  "map_has m k = (map_of m k \<noteq> None)"

text \<open>
  \<^verbatim>\<open>xs.sort(cmp)\<close> is stable: an element goes in front of the first later element that the
  comparator does not put before it. Both comparators of this code are differences of a
  numeric key, hence consistent orderings on exact numbers, for which every stable sort
  returns this list.
\<close>

fun js_insert :: "('a \<Rightarrow> 'a \<Rightarrow> real) \<Rightarrow> 'a \<Rightarrow> 'a list \<Rightarrow> 'a list" where
  "js_insert cmp x [] = [x]"
| "js_insert cmp x (y # ys) = (if cmp x y \<le> 0 then x # y # ys else y # js_insert cmp x ys)"

definition js_sort :: "('a \<Rightarrow> 'a \<Rightarrow> real) \<Rightarrow> 'a list \<Rightarrow> 'a list" where
  "js_sort cmp xs = foldr (js_insert cmp) xs []"

text \<open>\<^verbatim>\<open>xs.slice(-n)\<close>: the last \<open>n\<close> elements.\<close>

definition slice_last :: "nat \<Rightarrow> 'a list \<Rightarrow> 'a list" where
  "slice_last n xs = drop (length xs - n) xs"

section \<open>The memory (class Memory)\<close>

record stItem =
  st_content :: jsvalue
  st_timestamp :: int
  st_importance :: real
  st_id :: string

record ltItem =
  lt_content :: jsvalue
  lt_importance :: real
  lt_timestamp :: int
  lt_accessCount :: int
  lt_lastAccess :: int
  lt_consolidated :: bool

record currentContext =
  recentMemories :: "stItem list"
  ctx_timestamp :: int
  activeTopics :: "string list"

record episode =
  ep_event :: jsvalue
  ep_timestamp :: int
  ep_context :: currentContext
  ep_emotions :: "(string \<times> nat) list"
  ep_importance :: real
  ep_id :: string

text \<open>
  The fields of \<^verbatim>\<open>Memory\<close> that the operations below read or write (\<^verbatim>\<open>semantic\<close> and
  \<^verbatim>\<open>procedural\<close> are only saved and loaded).
\<close>

record memory =
  shortTermCapacity :: int
  longTermCapacity :: int
  episodicCapacity :: int
  shortTerm :: "stItem list"
  longTerm :: "(string \<times> ltItem) list"
  episodic :: "episode list"
  memoryWeights :: "(string \<times> real) list"
  accessCount :: "(string \<times> int) list"
  lastAccess :: "(string \<times> int) list"
  decayRate :: real
  consolidationThreshold :: int

text \<open>
  The constructor's \<^verbatim>\<open>config.x || d\<close>: a missing capacity and the capacity 0 are both
  falsy and give the default.
\<close>

record config =
  cfg_shortTermCapacity :: "int option"
  cfg_longTermCapacity :: "int option"
  cfg_episodicCapacity :: "int option"

definition or_default :: "int option \<Rightarrow> int \<Rightarrow> int" where
  "or_default v d = (case v of None \<Rightarrow> d | Some n \<Rightarrow> if n = 0 then d else n)"

definition new_Memory :: "config \<Rightarrow> memory" where
  "new_Memory cfg =
     \<lparr> shortTermCapacity = or_default (cfg_shortTermCapacity cfg) 10,
       longTermCapacity = or_default (cfg_longTermCapacity cfg) 1000,
       episodicCapacity = or_default (cfg_episodicCapacity cfg) 500,
       shortTerm = [], longTerm = [], episodic = [],
       memoryWeights = [], accessCount = [], lastAccess = [],
       decayRate = 0.1, consolidationThreshold = 5 \<rparr>"

subsection \<open>Importance heuristic\<close>

definition importantKeywords :: "string list" where
  "importantKeywords =
     [''quan tr'' @ [CHR 0xE1, CHR 0xBB, CHR 0x8D] @ ''ng'',
      ''c'' @ [CHR 0xE1, CHR 0xBA, CHR 0xA7] @ ''n nh'' @ [CHR 0xE1, CHR 0xBB, CHR 0x9B],
      ''important'',
      ''remember'',
      ''critical'']"

definition emotionalWords :: "string list" where
  "emotionalWords =
     [''y'' @ [CHR 0xC3, CHR 0xAA] @ ''u'',
      ''gh'' @ [CHR 0xC3, CHR 0xA9] @ ''t'',
      ''tuy'' @ [CHR 0xE1, CHR 0xBB, CHR 0x87] @ ''t v'' @ [CHR 0xE1, CHR 0xBB, CHR 0x9D] @ ''i'',
      ''t'' @ [CHR 0xE1, CHR 0xBB, CHR 0x87] @ '' h'' @ [CHR 0xE1, CHR 0xBA, CHR 0xA1] @ ''i'',
      ''love'',
      ''hate'']"

definition has_keyword :: "lowercase \<Rightarrow> string \<Rightarrow> string list \<Rightarrow> bool" where
  "has_keyword lc s keywords = list_ex (\<lambda>keyword. str_includes (lc s) keyword) keywords"

definition calculateImportance :: "lowercase \<Rightarrow> jsvalue \<Rightarrow> real" where
  "calculateImportance lc content =
     (case content of
        JString s \<Rightarrow>
          (let i0 = 0.5;
               i1 = (if has_keyword lc s importantKeywords then i0 + 0.3 else i0);
               i2 = (if utf16_length s > 100 then i1 + 0.1 else i1);
               i3 = (if has_keyword lc s emotionalWords then i2 + 0.2 else i2)
           in min i3 1.0)
      | _ \<Rightarrow> min 0.5 1.0)"

subsection \<open>Long-term store\<close>

text \<open>The four deletions done for a key that leaves the long-term store.\<close>

definition forget :: "string \<Rightarrow> memory \<Rightarrow> memory" where
  "forget key m =
     m\<lparr> longTerm := AList.delete key (longTerm m),
        memoryWeights := AList.delete key (memoryWeights m),
        accessCount := AList.delete key (accessCount m),
        lastAccess := AList.delete key (lastAccess m) \<rparr>"

definition composite :: "string \<times> ltItem \<Rightarrow> string \<times> ltItem \<Rightarrow> real" where
  "composite a b =
     (let importanceScore = lt_importance (snd a) - lt_importance (snd b);
          accessScore = real_of_int (lt_accessCount (snd a) - lt_accessCount (snd b));
          timeScore = real_of_int (lt_lastAccess (snd a) - lt_lastAccess (snd b))
      in importanceScore + accessScore * 0.1 + timeScore * 0.001)"

definition manageLongTermCapacity :: "memory \<Rightarrow> memory" where
  "manageLongTermCapacity m =
     (if int (length (longTerm m)) \<le> longTermCapacity m then m
      else
        (let itemsByImportance = js_sort composite (longTerm m);
             toRemove = take (nat (int (length (longTerm m)) - longTermCapacity m))
                          itemsByImportance
         in foldl (\<lambda>m' entry. forget (fst entry) m') m toRemove))"

definition addToLongTerm :: "string \<Rightarrow> jsvalue \<Rightarrow> real \<Rightarrow> int \<Rightarrow> memory \<Rightarrow> string \<times> memory" where
  "addToLongTerm key val imp now m =
     (let memoryItem = \<lparr> lt_content = val, lt_importance = imp, lt_timestamp = now,
                          lt_accessCount = 0, lt_lastAccess = now, lt_consolidated = False \<rparr>;
          m1 = m\<lparr> longTerm := AList.update key memoryItem (longTerm m),
                  memoryWeights := AList.update key imp (memoryWeights m) \<rparr>
      in (key, manageLongTermCapacity m1))"

definition consolidateToLongTerm :: "stItem \<Rightarrow> int \<Rightarrow> memory \<Rightarrow> memory" where
  "consolidateToLongTerm shortTermItem now m =
     (let key = ''consolidated_'' @ st_id shortTermItem;
          m1 = snd (addToLongTerm key (st_content shortTermItem)
                      (st_importance shortTermItem) now m)
      in (case map_of (longTerm m1) key of
            None \<Rightarrow> m1
          | Some item \<Rightarrow>
              m1\<lparr> longTerm := AList.update key (item\<lparr> lt_consolidated := True \<rparr>)
                                 (longTerm m1) \<rparr>))"

subsection \<open>Short-term buffer\<close>

definition addToShortTerm :: "lowercase \<Rightarrow> jsvalue \<Rightarrow> int \<Rightarrow> string \<Rightarrow> memory \<Rightarrow> string \<times> memory" where
  "addToShortTerm lc item now newId m =
     (let memoryItem = \<lparr> st_content = item, st_timestamp = now,
                          st_importance = calculateImportance lc item, st_id = newId \<rparr>;
          m1 = m\<lparr> shortTerm := shortTerm m @ [memoryItem] \<rparr>
      in if int (length (shortTerm m1)) > shortTermCapacity m1
         then (case shortTerm m1 of
                 [] \<Rightarrow> (newId, m1)
               | removed # rest \<Rightarrow>
                   (let m2 = m1\<lparr> shortTerm := rest \<rparr>
                    in (newId, if st_importance removed > 0.7
                               then consolidateToLongTerm removed now m2 else m2)))
         else (newId, m1))"

subsection \<open>Episodic log\<close>

definition topicKeywords :: "(string \<times> string list) list" where
  "topicKeywords =
     [(''technology'',
       [''c'' @ [CHR 0xC3, CHR 0xB4] @ ''ng ngh'' @ [CHR 0xE1, CHR 0xBB, CHR 0x87],
        ''ai'', ''robot'', ''computer'', ''technology'']),
      (''health'',
       [''s'' @ [CHR 0xE1, CHR 0xBB, CHR 0xA9] @ ''c kh'' @ [CHR 0xE1, CHR 0xBB, CHR 0x8F] @ ''e'',
        ''b'' @ [CHR 0xE1, CHR 0xBB, CHR 0x87] @ ''nh'',
        ''thu'' @ [CHR 0xE1, CHR 0xBB, CHR 0x91] @ ''c'',
        ''health'', ''medicine'']),
      (''education'',
       [''h'' @ [CHR 0xE1, CHR 0xBB, CHR 0x8D] @ ''c'',
        ''gi'' @ [CHR 0xC3, CHR 0xA1] @ ''o d'' @ [CHR 0xE1, CHR 0xBB, CHR 0xA5] @ ''c'',
        ''tr'' @ [CHR 0xC6, CHR 0xB0] @ [CHR 0xE1, CHR 0xBB, CHR 0x9D] @ ''ng'',
        ''education'', ''school'']),
      (''entertainment'',
       [''phim'', ''nh'' @ [CHR 0xE1, CHR 0xBA, CHR 0xA1] @ ''c'', ''game'', ''movie'',
        ''music''])]"

definition emotionalKeywords :: "(string \<times> string list) list" where
  "emotionalKeywords =
     [(''happy'',
       [''vui'',
        ''h'' @ [CHR 0xE1, CHR 0xBA, CHR 0xA1] @ ''nh ph'' @ [CHR 0xC3, CHR 0xBA] @ ''c'',
        ''vui v'' @ [CHR 0xE1, CHR 0xBA, CHR 0xBB],
        ''happy'', ''joy'', ''excited'']),
      (''sad'',
       [''bu'' @ [CHR 0xE1, CHR 0xBB, CHR 0x93] @ ''n'', ''kh'' @ [CHR 0xC3, CHR 0xB3] @ ''c'',
        ''sad'', ''cry'', ''depressed'']),
      (''angry'',
       [''t'' @ [CHR 0xE1, CHR 0xBB, CHR 0xA9] @ ''c gi'' @ [CHR 0xE1, CHR 0xBA, CHR 0xAD] @ ''n'',
        ''t'' @ [CHR 0xE1, CHR 0xBB, CHR 0xA9] @ ''c'',
        ''angry'', ''mad'', ''furious'']),
      (''surprised'',
       [''ng'' @ [CHR 0xE1, CHR 0xBA, CHR 0xA1] @ ''c nhi'' @ [CHR 0xC3, CHR 0xAA] @ ''n'',
        ''surprised'', ''amazed'', ''shocked''])]"

text \<open>An array element inside \<^verbatim>\<open>Array.prototype.join\<close>: \<^verbatim>\<open>undefined\<close> joins as nothing.\<close>

definition join_text :: "jsvalue \<Rightarrow> string" where
  "join_text v = (case v of JString s \<Rightarrow> s | JObject r \<Rightarrow> ''[object Object]'' | JUndefined \<Rightarrow> [])"

fun join :: "string \<Rightarrow> string list \<Rightarrow> string" where
  "join sep [] = []"
| "join sep [x] = x"
| "join sep (x # y # ys) = x @ sep @ join sep (y # ys)"

definition getActiveTopics :: "lowercase \<Rightarrow> memory \<Rightarrow> string list" where
  "getActiveTopics lc m =
     (let recentContent = join '' '' (map (\<lambda>item. join_text (st_content item))
                                         (slice_last 5 (shortTerm m)))
      in map fst (filter (\<lambda>(topic, keywords). has_keyword lc recentContent keywords)
                    topicKeywords))"

definition getCurrentContext :: "lowercase \<Rightarrow> int \<Rightarrow> memory \<Rightarrow> currentContext" where
  "getCurrentContext lc now m =
     \<lparr> recentMemories = slice_last 3 (shortTerm m), ctx_timestamp = now,
       activeTopics = getActiveTopics lc m \<rparr>"

text \<open>
  \<^verbatim>\<open>analyzeEmotionalContext\<close> calls \<^verbatim>\<open>content.toLowerCase()\<close> with no \<^verbatim>\<open>typeof\<close> test: on a
  payload that is not a string the call is a \<^verbatim>\<open>TypeError\<close>.
\<close>

definition analyzeEmotionalContext :: "lowercase \<Rightarrow> jsvalue \<Rightarrow> error + (string \<times> nat) list" where
  "analyzeEmotionalContext lc content =
     (case content of
        JString s \<Rightarrow>
          Inr (map (\<lambda>(emotion, keywords). (emotion, if has_keyword lc s keywords then 1 else 0))
                 emotionalKeywords)
      | _ \<Rightarrow> Inl TypeError)"

definition addEpisodicMemory :: "lowercase \<Rightarrow> jsvalue \<Rightarrow> int \<Rightarrow> string \<Rightarrow> memory \<Rightarrow> error + string \<times> memory" where
  "addEpisodicMemory lc event now newId m =
     (let ctx = getCurrentContext lc now m
      in case analyzeEmotionalContext lc event of
           Inl e \<Rightarrow> Inl e
         | Inr emotions \<Rightarrow>
             (let episode = \<lparr> ep_event = event, ep_timestamp = now, ep_context = ctx,
                              ep_emotions = emotions,
                              ep_importance = calculateImportance lc event, ep_id = newId \<rparr>;
                  m1 = m\<lparr> episodic := episodic m @ [episode] \<rparr>
              in Inr (newId, if int (length (episodic m1)) > episodicCapacity m1
                             then m1\<lparr> episodic := tl (episodic m1) \<rparr> else m1)))"

subsection \<open>Retrieval\<close>

text \<open>
  A search result is the stored object spread into a new one with \<^verbatim>\<open>relevance\<close> and
  \<^verbatim>\<open>type\<close>; the fields kept are those some caller reads. An episode has no \<^verbatim>\<open>content\<close>
  property, so a result of the episodic tier reads \<^verbatim>\<open>undefined\<close> there.
\<close>

record result =
  r_id :: string
  r_content :: jsvalue
  r_importance :: real
  r_relevance :: real
  r_type :: string

definition searchShortTerm :: "lowercase \<Rightarrow> jsvalue \<Rightarrow> memory \<Rightarrow> result list" where
  "searchShortTerm lc query m =
     filter (\<lambda>item. r_relevance item > 0.1)
       (map (\<lambda>item. \<lparr> r_id = st_id item, r_content = st_content item,
                        r_importance = st_importance item,
                        r_relevance = calculateRelevance lc query (st_content item),
                        r_type = ''shortterm'' \<rparr>)
          (shortTerm m))"

definition searchLongTerm :: "lowercase \<Rightarrow> jsvalue \<Rightarrow> memory \<Rightarrow> result list" where
  "searchLongTerm lc query m =
     concat (map (\<lambda>(key, item).
        (let relevance = calculateRelevance lc query (lt_content item)
         in if relevance > 0.1
            then [\<lparr> r_id = key, r_content = lt_content item,
                     r_importance = lt_importance item, r_relevance = relevance,
                     r_type = ''longterm'' \<rparr>]
            else [])) (longTerm m))"

definition searchEpisodic :: "lowercase \<Rightarrow> jsvalue \<Rightarrow> memory \<Rightarrow> result list" where
  "searchEpisodic lc query m =
     filter (\<lambda>episode. r_relevance episode > 0.1)
       (map (\<lambda>episode. \<lparr> r_id = ep_id episode, r_content = JUndefined,
                           r_importance = ep_importance episode,
                           r_relevance = calculateRelevance lc query (ep_event episode),
                           r_type = ''episodic'' \<rparr>)
          (episodic m))"

text \<open>\<^verbatim>\<open>weights.get(id) || 0.5\<close> and \<^verbatim>\<open>counts.get(id) || 0\<close>: a stored 0 is falsy as well.\<close>

definition updateAccess :: "string \<Rightarrow> int \<Rightarrow> memory \<Rightarrow> memory" where
  "updateAccess ident now m =
     (let count = (case map_of (accessCount m) ident of None \<Rightarrow> 0 | Some c \<Rightarrow> c);
          m1 = m\<lparr> accessCount := AList.update ident (count + 1) (accessCount m),
                  lastAccess := AList.update ident now (lastAccess m) \<rparr>
      in if count > consolidationThreshold m1
         then (let currentWeight =
                     (case map_of (memoryWeights m1) ident of
                        None \<Rightarrow> 0.5 | Some w \<Rightarrow> if w = 0 then 0.5 else w)
               in m1\<lparr> memoryWeights :=
                         AList.update ident (min (currentWeight + 0.1) 1.0) (memoryWeights m1) \<rparr>)
         else m1)"

definition by_relevance :: "result \<Rightarrow> result \<Rightarrow> real" where
  "by_relevance a b = r_relevance b - r_relevance a"

definition recall :: "lowercase \<Rightarrow> jsvalue \<Rightarrow> string \<Rightarrow> int \<Rightarrow> memory \<Rightarrow> result list \<times> memory" where
  "recall lc query memoryType now m =
     (let results =
            (if memoryType = ''all'' \<or> memoryType = ''shortterm''
             then searchShortTerm lc query m else []) @
            (if memoryType = ''all'' \<or> memoryType = ''longterm''
             then searchLongTerm lc query m else []) @
            (if memoryType = ''all'' \<or> memoryType = ''episodic''
             then searchEpisodic lc query m else []);
          sorted_results = js_sort by_relevance results
      in (sorted_results, foldl (\<lambda>m' item. updateAccess (r_id item) now m') m sorted_results))"

subsection \<open>Decay\<close>

text \<open>
  One turn of the loop of \<^verbatim>\<open>applyDecay\<close>. Deleting the entry being visited does not
  disturb the iteration of a \<^verbatim>\<open>Map\<close>, so the loop visits the entries present at its start.
\<close>

definition decay_entry :: "int \<Rightarrow> string \<times> ltItem \<Rightarrow> memory \<Rightarrow> memory" where
  "decay_entry now entry m =
     (let key = fst entry; item = snd entry;
          decayThreshold = 24 * 60 * 60 * 1000;
          timeSinceAccess = now - lt_lastAccess item
      in if timeSinceAccess > decayThreshold
         then (let decayFactor = exp (- decayRate m *
                                   (real_of_int timeSinceAccess / real_of_int decayThreshold));
                   item' = item\<lparr> lt_importance := lt_importance item * decayFactor \<rparr>
               in if lt_importance item' < 0.1 \<and> \<not> lt_consolidated item'
                  then forget key m
                  else m\<lparr> longTerm := AList.update key item' (longTerm m) \<rparr>)
         else m)"

definition applyDecay :: "int \<Rightarrow> memory \<Rightarrow> memory" where
  "applyDecay now m = foldl (\<lambda>m' entry. decay_entry now entry m') m (longTerm m)"

subsection \<open>Sequences of calls\<close>

datatype call =
    AddToShortTerm jsvalue int string
  | AddToLongTerm string jsvalue real int
  | AddEpisodicMemory jsvalue int string

text \<open>A call that throws leaves the memory as it was: nothing is written before the throw.\<close>

fun run_call :: "lowercase \<Rightarrow> call \<Rightarrow> memory \<Rightarrow> memory" where
  "run_call lc (AddToShortTerm item now newId) m = snd (addToShortTerm lc item now newId m)"
| "run_call lc (AddToLongTerm key val imp now) m = snd (addToLongTerm key val imp now m)"
| "run_call lc (AddEpisodicMemory event now newId) m =
     (case addEpisodicMemory lc event now newId m of Inl e \<Rightarrow> m | Inr (i, m') \<Rightarrow> m')"

definition run_calls :: "lowercase \<Rightarrow> call list \<Rightarrow> memory \<Rightarrow> memory" where
  "run_calls lc cs m = foldl (\<lambda>m' c. run_call lc c m') m cs"

section \<open>The reasoning engine (class ReasoningEngine)\<close>

record rule =
  rule_pattern :: "string list"
  rule_conclusion :: string
  rule_confidence :: real
  rule_name :: string
  rule_createdAt :: int
  usageCount :: int

record fact =
  fact_content :: jsvalue
  fact_confidence :: real
  fact_timestamp :: int
  fact_source :: string

datatype step =
    DirectFact fact real
  | MemoryRecall jsvalue real real
  | RuleApplication string string real int
  | PatternMatching string jsvalue real
  | AnalogicalReasoning jsvalue string real

text \<open>
  The object \<^verbatim>\<open>reasoningChain\<close>. The field \<open>merged\<close> is not in the source: it is a ghost
  field that lists, for every \<^verbatim>\<open>conclusions.push\<close>, the confidence merged into
  \<^verbatim>\<open>confidence\<close> at that push. Nothing reads it.
\<close>

record reasoningChain =
  rc_query :: string
  startTime :: int
  steps :: "step list"
  conclusions :: "jsvalue list"
  confidence :: real
  endTime :: "int option"
  merged :: "real list"

record engine =
  rules :: "(string \<times> rule) list"
  facts :: "fact list"
  reasoningHistory :: "reasoningChain list"

subsection \<open>Rules and facts\<close>

definition addRule :: "string \<Rightarrow> string list \<Rightarrow> string \<Rightarrow> real \<Rightarrow> int \<Rightarrow> engine \<Rightarrow> engine" where
  "addRule name pattern conclusion conf now e =
     e\<lparr> rules := AList.update name
                    \<lparr> rule_pattern = pattern, rule_conclusion = conclusion,
                      rule_confidence = conf, rule_name = name, rule_createdAt = now,
                      usageCount = 0 \<rparr> (rules e) \<rparr>"

definition initializeBasicRules :: "int \<Rightarrow> engine \<Rightarrow> engine" where
  "initializeBasicRules now e =
     addRule ''temporal_sequence'' [''{A} happens before {B}'', ''{B} is happening'']
       ''{A} has happened'' 0.8 now
     (addRule ''analogy'' [''{A} is like {B}'', ''{A} has property {P}'']
       ''{B} may have property {P}'' 0.6 now
     (addRule ''causal_chain'' [''{A} causes {B}'', ''{B} causes {C}'']
       ''{A} may cause {C}'' 0.7 now
     (addRule ''modus_tollens'' [''if {A} then {B}'', ''not {B}''] ''not {A}'' 0.85 now
     (addRule ''modus_ponens'' [''if {A} then {B}'', ''{A}''] ''{B}'' 0.9 now e))))"

definition new_ReasoningEngine :: "int \<Rightarrow> engine" where
  "new_ReasoningEngine now =
     initializeBasicRules now \<lparr> rules = [], facts = [], reasoningHistory = [] \<rparr>"

text \<open>
  Facts live in a \<^verbatim>\<open>Set\<close> of their JSON texts: insertion order, and a fact equal in all
  four fields to a stored one is not added again.
\<close>

definition addFact :: "jsvalue \<Rightarrow> real \<Rightarrow> int \<Rightarrow> engine \<Rightarrow> fact \<times> engine" where
  "addFact content conf now e =
     (let factObj = \<lparr> fact_content = content, fact_confidence = conf, fact_timestamp = now,
                       fact_source = ''user_input'' \<rparr>
      in (factObj, if factObj \<in> set (facts e) then e else e\<lparr> facts := facts e @ [factObj] \<rparr>))"

fun relevant_facts :: "lowercase \<Rightarrow> string \<Rightarrow> fact list \<Rightarrow> error + fact list" where
  "relevant_facts lc query [] = Inr []"
| "relevant_facts lc query (f # fs) =
     (case fact_content f of
        JString c \<Rightarrow>
          (case relevant_facts lc query fs of
             Inl err \<Rightarrow> Inl err
           | Inr rest \<Rightarrow>
               Inr (if str_includes (lc c) (lc query) \<or>
                       str_includes (lc query) (lc c)
                    then f # rest else rest))
      | _ \<Rightarrow> Inl TypeError)"

definition by_confidence :: "fact \<Rightarrow> fact \<Rightarrow> real" where
  "by_confidence a b = fact_confidence b - fact_confidence a"

definition findRelevantFacts :: "lowercase \<Rightarrow> string \<Rightarrow> engine \<Rightarrow> error + fact list" where
  "findRelevantFacts lc query e =
     (case relevant_facts lc query (facts e) of
        Inl err \<Rightarrow> Inl err
      | Inr relevantFacts \<Rightarrow> Inr (js_sort by_confidence relevantFacts))"

subsection \<open>Templates and regular expressions\<close>

text \<open>
  The global replacement of \<^verbatim>\<open>/\{[^}]+\}/\<close> in a template: a brace, one or more characters
  other than a closing brace, a closing brace. Anything else is copied.
\<close>

datatype piece = Text char | Placeholder string

function scan_template :: "string \<Rightarrow> piece list" where
  "scan_template [] = []"
| "scan_template (c # cs) =
     (if c = CHR ''{'' \<and> takeWhile (\<lambda>x. x \<noteq> CHR ''}'') cs \<noteq> [] \<and>
         dropWhile (\<lambda>x. x \<noteq> CHR ''}'') cs \<noteq> []
      then Placeholder (takeWhile (\<lambda>x. x \<noteq> CHR ''}'') cs) #
           scan_template (tl (dropWhile (\<lambda>x. x \<noteq> CHR ''}'') cs))
      else Text c # scan_template cs)"
  by pat_completeness auto
termination
proof (relation "measure length")
  show "wf (measure length)" by simp
next
  fix c :: char and cs :: string
  have "length (tl (dropWhile (\<lambda>x. x \<noteq> CHR ''}'') cs)) \<le> length cs"
    using length_dropWhile_le [of "\<lambda>x. x \<noteq> CHR ''}''" cs] by simp
  then show "(tl (dropWhile (\<lambda>x. x \<noteq> CHR ''}'') cs), c # cs) \<in> measure length"
    by simp
next
  fix c :: char and cs :: string
  show "(cs, c # cs) \<in> measure length" by simp
qed

definition loosened :: "string \<Rightarrow> string" where
  "loosened pattern =
     concat (map (\<lambda>p. case p of Text c \<Rightarrow> [c] | Placeholder varName \<Rightarrow> ''(.+)'')
               (scan_template pattern))"

definition named_groups :: "string \<Rightarrow> string" where
  "named_groups pattern =
     concat (map (\<lambda>p. case p of Text c \<Rightarrow> [c]
                       | Placeholder varName \<Rightarrow> ''(?<'' @ varName @ ''>.+?)'')
               (scan_template pattern))"

text \<open>
  The regular-expression engine is the platform's, not this repository's, so the engine
  functions take it as an argument \<open>rx\<close>: \<open>rx src text\<close> stands for
  \<^verbatim>\<open>text.match(new RegExp(src, 'i'))\<close> and is \<open>Inl SyntaxError\<close> when \<open>src\<close> is not a
  pattern, \<open>Inr None\<close> when nothing matches, and otherwise \<open>Inr (Some groups)\<close> with the
  named groups of the leftmost match in the order of their definition (the empty list
  when the pattern has no named group, where \<^verbatim>\<open>match.groups\<close> is \<^verbatim>\<open>undefined\<close>). The
  theorems about forward chaining and about \<^verbatim>\<open>reason\<close> hold for every such function.
\<close>

type_synonym regexp = "string \<Rightarrow> string \<Rightarrow> error + (string \<times> string) list option"

fun some_pattern_matches :: "regexp \<Rightarrow> string \<Rightarrow> string list \<Rightarrow> error + bool" where
  "some_pattern_matches rx query [] = Inr False"
| "some_pattern_matches rx query (pattern # patterns) =
     (case rx (loosened pattern) query of
        Inl err \<Rightarrow> Inl err
      | Inr None \<Rightarrow> some_pattern_matches rx query patterns
      | Inr (Some groups) \<Rightarrow> Inr True)"

definition matchesRule :: "regexp \<Rightarrow> string \<Rightarrow> rule \<Rightarrow> error + bool" where
  "matchesRule rx query r = some_pattern_matches rx query (rule_pattern r)"

definition extractVariables :: "regexp \<Rightarrow> string \<Rightarrow> string \<Rightarrow> error + (string \<times> string) list option" where
  "extractVariables rx text pattern =
     (case rx (named_groups pattern) text of
        Inl err \<Rightarrow> Inl err
      | Inr None \<Rightarrow> Inr None
      | Inr (Some groups) \<Rightarrow> if groups = [] then Inr None else Inr (Some groups))"

text \<open>
  \<^verbatim>\<open>s.replace(search, replacement)\<close> with a string \<open>search\<close>: the first occurrence only,
  and the replacement text is expanded (\<^verbatim>\<open>$$\<close>, \<^verbatim>\<open>$&\<close>, \<^verbatim>\<open>$`\<close>, \<^verbatim>\<open>$'\<close>; with no capture
  groups every other \<^verbatim>\<open>$\<close> stands for itself).
\<close>

fun expand_replacement :: "string \<Rightarrow> string \<Rightarrow> string \<Rightarrow> string \<Rightarrow> string" where
  "expand_replacement (c # d # cs) matched pre post =
     (if c = CHR ''$'' \<and> d = CHR ''$'' then CHR ''$'' # expand_replacement cs matched pre post
      else if c = CHR ''$'' \<and> d = CHR ''&'' then matched @ expand_replacement cs matched pre post
      else if c = CHR ''$'' \<and> d = CHR 0x60 then pre @ expand_replacement cs matched pre post
      else if c = CHR ''$'' \<and> d = CHR 0x27 then post @ expand_replacement cs matched pre post
      else c # expand_replacement (d # cs) matched pre post)"
| "expand_replacement cs matched pre post = cs"

fun indexOf :: "string \<Rightarrow> string \<Rightarrow> nat option" where
  "indexOf [] t = (if t = [] then Some 0 else None)"
| "indexOf (c # cs) t =
     (if startsWith (c # cs) t then Some 0 else map_option Suc (indexOf cs t))"

definition replace_first :: "string \<Rightarrow> string \<Rightarrow> string \<Rightarrow> string" where
  "replace_first s search replacement =
     (case indexOf s search of
        None \<Rightarrow> s
      | Some i \<Rightarrow>
          (let pre = take i s; post = drop (i + length search) s
           in pre @ expand_replacement replacement search pre post @ post))"

text \<open>
  \<^verbatim>\<open>applyRule\<close> returns the conclusion, or nothing; whatever is thrown inside (an empty
  pattern list, a rejected pattern) is caught there. The rule's \<^verbatim>\<open>usageCount\<close> is
  incremented in place, so the updated rule is returned as well.
\<close>

definition applyRule :: "regexp \<Rightarrow> string \<Rightarrow> rule \<Rightarrow> (rule \<times> string \<times> real) option" where
  "applyRule rx input r =
     (case rule_pattern r of
        [] \<Rightarrow> None
      | pattern0 # others \<Rightarrow>
          (case extractVariables rx input pattern0 of
             Inl err \<Rightarrow> None
           | Inr None \<Rightarrow> None
           | Inr (Some variables) \<Rightarrow>
               (let conclusion =
                      foldl (\<lambda>conclusion (varName, varValue).
                               replace_first conclusion (''{'' @ varName @ ''}'') varValue)
                        (rule_conclusion r) variables
                in Some (r\<lparr> usageCount := usageCount r + 1 \<rparr>, conclusion,
                         rule_confidence r))))"

subsection \<open>Forward chaining\<close>

definition add_conclusion :: "jsvalue \<Rightarrow> real \<Rightarrow> reasoningChain \<Rightarrow> reasoningChain" where
  "add_conclusion content conf t =
     t\<lparr> conclusions := conclusions t @ [content],
        confidence := max (confidence t) conf,
        merged := merged t @ [conf] \<rparr>"

text \<open>
  \<^verbatim>\<open>applyRules\<close> and its loop over \<^verbatim>\<open>this.rules.entries()\<close>. No call adds or removes a
  rule, so the loop runs over the names present at its start and reads each rule as it
  is when its turn comes.
\<close>

function applyRules :: "regexp \<Rightarrow> string \<Rightarrow> int \<Rightarrow> int \<Rightarrow> engine \<times> reasoningChain \<Rightarrow> error + engine \<times> reasoningChain"
  and applyRules_loop :: "regexp \<Rightarrow> string list \<Rightarrow> string \<Rightarrow> int \<Rightarrow> int \<Rightarrow> engine \<times> reasoningChain \<Rightarrow> error + engine \<times> reasoningChain"
where
  "applyRules rx query depth maxDepth (e, t) =
     (if depth \<ge> maxDepth then Inr (e, t)
      else applyRules_loop rx (map fst (rules e)) query depth maxDepth (e, t))"
| "applyRules_loop rx [] query depth maxDepth (e, t) = Inr (e, t)"
| "applyRules_loop rx (ruleName # ruleNames) query depth maxDepth (e, t) =
     (case map_of (rules e) ruleName of
        None \<Rightarrow> applyRules_loop rx ruleNames query depth maxDepth (e, t)
      | Some r \<Rightarrow>
          (case matchesRule rx query r of
             Inl err \<Rightarrow> Inl err
           | Inr False \<Rightarrow> applyRules_loop rx ruleNames query depth maxDepth (e, t)
           | Inr True \<Rightarrow>
               (case applyRule rx query r of
                  None \<Rightarrow> applyRules_loop rx ruleNames query depth maxDepth (e, t)
                | Some (r', content, conf) \<Rightarrow>
                    (let e1 = e\<lparr> rules := AList.update ruleName r' (rules e) \<rparr>;
                         t1 = t\<lparr> steps := steps t @
                                   [RuleApplication ruleName content conf depth] \<rparr>;
                         t2 = (if JString content \<in> set (conclusions t1) then t1
                               else add_conclusion (JString content) conf t1)
                     in case applyRules rx content (depth + 1) maxDepth (e1, t2) of
                          Inl err \<Rightarrow> Inl err
                        | Inr (e2, t3) \<Rightarrow>
                            applyRules_loop rx ruleNames query depth maxDepth (e2, t3)))))"
  by pat_completeness auto
termination
  by (relation "inv_image (less_than <*lex*> less_than)
        (\<lambda>x. case x of
           Inl (rx, query, depth, maxDepth, (e, t)) \<Rightarrow>
             (nat (maxDepth - depth),
              if depth \<ge> maxDepth then 0 else length (rules e) + 2)
         | Inr (rx, ruleNames, query, depth, maxDepth, (e, t)) \<Rightarrow>
             (nat (maxDepth - depth), length ruleNames + 1))")
     auto

subsection \<open>Canned pattern handlers\<close>

text \<open>
  What a run of dots can take at most: the text up to the first line terminator (line
  feed, carriage return, U+2028 or U+2029), which a dot does not match.
\<close>

fun rest_of_line :: "string \<Rightarrow> string" where
  "rest_of_line [] = []"
| "rest_of_line (c # cs) =
     (if c = CHR 0x0A \<or> c = CHR 0x0D \<or>
         (c = CHR 0xE2 \<and>
          (startsWith cs [CHR 0x80, CHR 0xA8] \<or> startsWith cs [CHR 0x80, CHR 0xA9]))
      then [] else c # rest_of_line cs)"

text \<open>
  The four literals \<^verbatim>\<open>/what is (.+)/i\<close>, \<^verbatim>\<open>/how to (.+)/i\<close>, \<^verbatim>\<open>/why (.+)/i\<close> and
  \<^verbatim>\<open>/when (.+)/i\<close>: the leftmost place where the words occur, whatever their case, with
  at least one character other than a line terminator after them; the group is the rest
  of that line. The words are ASCII, and under the flag \<^verbatim>\<open>i\<close> without \<^verbatim>\<open>u\<close> a character
  beyond ASCII never equals an ASCII letter, so folding the ASCII letters is exact here.
\<close>

fun match_words :: "string \<Rightarrow> string \<Rightarrow> string option" where
  "match_words w [] = None"
| "match_words w (c # cs) =
     (if startsWith (ascii_lower (c # cs)) w \<and>
         rest_of_line (drop (length w) (c # cs)) \<noteq> []
      then Some (rest_of_line (drop (length w) (c # cs)))
      else match_words w cs)"

text \<open>A value inside a template literal.\<close>

definition to_text :: "jsvalue \<Rightarrow> string" where
  "to_text v =
     (case v of JString s \<Rightarrow> s | JObject r \<Rightarrow> ''[object Object]''
      | JUndefined \<Rightarrow> ''undefined'')"

definition explainConcept :: "lowercase \<Rightarrow> string \<Rightarrow> int \<Rightarrow> memory \<Rightarrow> (jsvalue \<times> real) \<times> memory" where
  "explainConcept lc concept now m =
     (case recall lc (JString concept) ''all'' now m of
        ([], m') \<Rightarrow> ((JString (''I need more information to explain '' @ concept), 0.3), m')
      | (best # others, m') \<Rightarrow>
          ((JString (concept @ '' is '' @ to_text (r_content best)), r_relevance best), m'))"

definition provideInstructions :: "lowercase \<Rightarrow> string \<Rightarrow> int \<Rightarrow> memory \<Rightarrow> (jsvalue \<times> real) \<times> memory" where
  "provideInstructions lc task now m =
     (case recall lc (JString (''how to '' @ task)) ''all'' now m of
        ([], m') \<Rightarrow>
          ((JString (''To '' @ task @ '', you might need to break it down into smaller steps''),
            0.4), m')
      | (best # others, m') \<Rightarrow> ((r_content best, r_relevance best), m'))"

definition explainReason :: "lowercase \<Rightarrow> string \<Rightarrow> int \<Rightarrow> memory \<Rightarrow> (jsvalue \<times> real) \<times> memory" where
  "explainReason lc statement now m =
     (case recall lc (JString (''because '' @ statement)) ''all'' now m of
        ([], m') \<Rightarrow>
          ((JString (''The reason for '' @ statement @
                     '' might be related to cause and effect''), 0.3), m')
      | (best # others, m') \<Rightarrow> ((r_content best, r_relevance best), m'))"

definition provideTimeInfo :: "lowercase \<Rightarrow> string \<Rightarrow> int \<Rightarrow> memory \<Rightarrow> (jsvalue \<times> real) \<times> memory" where
  "provideTimeInfo lc event now m =
     (case recall lc (JString (''when '' @ event)) ''all'' now m of
        ([], m') \<Rightarrow>
          ((JString (''I don'' @ [CHR 0x27] @ ''t have specific timing information about '' @
                     event), 0.2), m')
      | (best # others, m') \<Rightarrow> ((r_content best, r_relevance best), m'))"

definition pattern_result :: "string \<Rightarrow> (jsvalue \<times> real) \<times> memory \<Rightarrow> reasoningChain \<Rightarrow> reasoningChain \<times> memory" where
  "pattern_result source res t =
     (let content = fst (fst res); conf = snd (fst res);
          t1 = t\<lparr> steps := steps t @ [PatternMatching source content conf] \<rparr>
      in (if content \<in> set (conclusions t1) then t1 else add_conclusion content conf t1,
          snd res))"

definition patternMatching :: "lowercase \<Rightarrow> string \<Rightarrow> int \<Rightarrow> reasoningChain \<times> memory \<Rightarrow> reasoningChain \<times> memory" where
  "patternMatching lc query now tm =
     (let t = fst tm; m = snd tm
      in case match_words ''what is '' query of
           Some x \<Rightarrow> pattern_result ''what is (.+)'' (explainConcept lc x now m) t
         | None \<Rightarrow>
        (case match_words ''how to '' query of
           Some x \<Rightarrow> pattern_result ''how to (.+)'' (provideInstructions lc x now m) t
         | None \<Rightarrow>
        (case match_words ''why '' query of
           Some x \<Rightarrow> pattern_result ''why (.+)'' (explainReason lc x now m) t
         | None \<Rightarrow>
        (case match_words ''when '' query of
           Some x \<Rightarrow> pattern_result ''when (.+)'' (provideTimeInfo lc x now m) t
         | None \<Rightarrow> (t, m)))))"

subsection \<open>Analogies\<close>

text \<open>\<^verbatim>\<open>findAnalogy\<close> calls \<^verbatim>\<open>target.toLowerCase()\<close>: a \<^verbatim>\<open>TypeError\<close> unless the target is a string.\<close>

definition findAnalogy :: "lowercase \<Rightarrow> string \<Rightarrow> jsvalue \<Rightarrow> error + (string \<times> real) option" where
  "findAnalogy lc source target =
     (case target of
        JString tgt \<Rightarrow>
          (let sourceTokens = split CHR '' '' (lc source);
               targetTokens = split CHR '' '' (lc tgt);
               commonTokens = filter (\<lambda>token. token \<in> set targetTokens \<and> length token > 3)
                                sourceTokens
           in if length commonTokens > 0
              then Inr (Some (''Similar to: '' @ tgt,
                     real (length commonTokens) /
                     real (max (length sourceTokens) (length targetTokens))))
              else Inr None)
      | _ \<Rightarrow> Inl TypeError)"

text \<open>\<^verbatim>\<open>conclusions.some(c => c.includes(text))\<close>: stops at the first hit, throws at a conclusion
  that is not a string.\<close>

fun some_includes :: "jsvalue list \<Rightarrow> string \<Rightarrow> error + bool" where
  "some_includes [] x = Inr False"
| "some_includes (c # cs) x =
     (case c of
        JString s \<Rightarrow> if str_includes s x then Inr True else some_includes cs x
      | _ \<Rightarrow> Inl TypeError)"

fun analogy_loop :: "lowercase \<Rightarrow> string \<Rightarrow> result list \<Rightarrow> reasoningChain \<Rightarrow> error + reasoningChain" where
  "analogy_loop lc query [] t = Inr t"
| "analogy_loop lc query (mem # mems) t =
     (case findAnalogy lc query (r_content mem) of
        Inl err \<Rightarrow> Inl err
      | Inr None \<Rightarrow> analogy_loop lc query mems t
      | Inr (Some (content, conf)) \<Rightarrow>
          (let t1 = t\<lparr> steps := steps t @
                          [AnalogicalReasoning (r_content mem) content conf] \<rparr>
           in case some_includes (conclusions t1) content of
                Inl err \<Rightarrow> Inl err
              | Inr True \<Rightarrow> analogy_loop lc query mems t1
              | Inr False \<Rightarrow>
                  analogy_loop lc query mems
                    (add_conclusion (JString (''Based on analogy: '' @ content))
                       (conf * 0.7) t1)))"

definition analogicalReasoning :: "lowercase \<Rightarrow> string \<Rightarrow> int \<Rightarrow> reasoningChain \<times> memory \<Rightarrow> error + reasoningChain \<times> memory" where
  "analogicalReasoning lc query now tm =
     (case recall lc (JString query) ''episodic'' now (snd tm) of
        (found, m') \<Rightarrow>
          (let similarMemories = take 3 (filter (\<lambda>mem. r_relevance mem > 0.5) found)
           in case analogy_loop lc query similarMemories (fst tm) of
                Inl err \<Rightarrow> Inl err
              | Inr t' \<Rightarrow> Inr (t', m')))"

subsection \<open>The orchestrator\<close>

definition direct_fact :: "fact list \<Rightarrow> reasoningChain \<Rightarrow> reasoningChain" where
  "direct_fact directFacts t =
     (case directFacts of
        [] \<Rightarrow> t
      | best # others \<Rightarrow>
          t\<lparr> steps := steps t @ [DirectFact best (fact_confidence best)],
             conclusions := conclusions t @ [fact_content best],
             confidence := fact_confidence best,
             merged := merged t @ [fact_confidence best] \<rparr>)"

definition memory_recall :: "result list \<Rightarrow> reasoningChain \<Rightarrow> reasoningChain" where
  "memory_recall memoryResults t =
     (case memoryResults of
        [] \<Rightarrow> t
      | bestMemory # others \<Rightarrow>
          (let t1 = t\<lparr> steps := steps t @
                          [MemoryRecall (r_content bestMemory) (r_relevance bestMemory)
                             (r_importance bestMemory)] \<rparr>
           in if length (conclusions t1) = 0
              then t1\<lparr> conclusions := conclusions t1 @ [r_content bestMemory],
                       confidence := r_relevance bestMemory * r_importance bestMemory,
                       merged := merged t1 @
                                   [r_relevance bestMemory * r_importance bestMemory] \<rparr>
              else t1))"

definition reason :: "lowercase \<Rightarrow> regexp \<Rightarrow> string \<Rightarrow> int \<Rightarrow> int \<Rightarrow> memory \<times> engine \<Rightarrow> error + reasoningChain \<times> memory \<times> engine" where
  "reason lc rx query maxDepth now me =
     (let m = fst me; e = snd me;
          t0 = \<lparr> rc_query = query, startTime = now, steps = [], conclusions = [],
                 confidence = 0, endTime = None, merged = [] \<rparr>
      in case findRelevantFacts lc query e of
           Inl err \<Rightarrow> Inl err
         | Inr directFacts \<Rightarrow>
             (let t1 = direct_fact directFacts t0;
                  rec = recall lc (JString query) ''all'' now m;
                  t2 = memory_recall (fst rec) t1
              in case applyRules rx query 0 maxDepth (e, t2) of
                   Inl err \<Rightarrow> Inl err
                 | Inr (e1, t3) \<Rightarrow>
                     (case analogicalReasoning lc query now
                             (patternMatching lc query now (t3, snd rec)) of
                        Inl err \<Rightarrow> Inl err
                      | Inr (t5, m3) \<Rightarrow>
                          (let t6 = t5\<lparr> endTime := Some now \<rparr>;
                               history = reasoningHistory e1 @ [t6]
                           in Inr (t6, m3,
                                   e1\<lparr> reasoningHistory :=
                                         (if length history > 100 then tl history
                                          else history) \<rparr>)))))"

subsection \<open>A regular-expression engine for plain templates\<close>

text \<open>
  For the built-in rules the patterns handed to \<^verbatim>\<open>RegExp\<close> are made of ordinary
  characters, \<^verbatim>\<open>(.+)\<close> and \<^verbatim>\<open>(?<name>.+?)\<close>. \<open>simple_regexp\<close> is the backtracking
  semantics of ECMAScript on this fragment, for ASCII patterns and ASCII text (it
  advances one byte at a time): a greedy group tries the longest run first, a lazy group
  the shortest, a dot stops at a line terminator, letters compare without case, and the
  leftmost starting position wins. A source outside the fragment is answered like a
  rejected pattern; nothing is claimed about the platform there. It is used in the
  examples only.
\<close>

datatype seg = Lit char | AnyGreedy | NamedLazy string

definition regex_special :: "char \<Rightarrow> bool" where
  "regex_special c = (c \<in> set (''^$.|?*+()[]{}'' @ [CHR 0x5C]))"

function parse_regex :: "string \<Rightarrow> seg list option" where
  "parse_regex [] = Some []"
| "parse_regex (c # cs) =
     (if startsWith (c # cs) ''(.+)''
      then map_option (Cons AnyGreedy) (parse_regex (drop 3 cs))
      else if startsWith (c # cs) ''(?<'' \<and>
              startsWith (dropWhile (\<lambda>x. x \<noteq> CHR ''>'') (drop 2 cs)) ''>.+?)''
      then map_option (Cons (NamedLazy (takeWhile (\<lambda>x. x \<noteq> CHR ''>'') (drop 2 cs))))
             (parse_regex (drop 5 (dropWhile (\<lambda>x. x \<noteq> CHR ''>'') (drop 2 cs))))
      else if regex_special c then None
      else map_option (Cons (Lit c)) (parse_regex cs))"
  by pat_completeness auto
termination
proof (relation "measure length")
  show "wf (measure length)" by simp
next
  fix c :: char and cs :: string
  show "(drop 3 cs, c # cs) \<in> measure length" by simp
next
  fix c :: char and cs :: string
  have "length (dropWhile (\<lambda>x. x \<noteq> CHR ''>'') (drop 2 cs)) \<le> length (drop 2 cs)"
    by (rule length_dropWhile_le)
  then show "(drop 5 (dropWhile (\<lambda>x. x \<noteq> CHR ''>'') (drop 2 cs)), c # cs) \<in> measure length"
    by simp
next
  fix c :: char and cs :: string
  show "(cs, c # cs) \<in> measure length" by simp
qed

definition ident_start :: "char \<Rightarrow> bool" where
  "ident_start c =
     (let n = (of_char c :: nat)
      in (65 \<le> n \<and> n \<le> 90) \<or> (97 \<le> n \<and> n \<le> 122) \<or> c = CHR ''_'' \<or> c = CHR ''$'')"

definition ident_part :: "char \<Rightarrow> bool" where
  "ident_part c = (ident_start c \<or> (let n = (of_char c :: nat) in 48 \<le> n \<and> n \<le> 57))"

definition group_name_ok :: "string \<Rightarrow> bool" where
  "group_name_ok n = (case n of [] \<Rightarrow> False | c # cs \<Rightarrow> ident_start c \<and> list_all ident_part cs)"

definition group_names :: "seg list \<Rightarrow> string list" where
  "group_names segs = concat (map (\<lambda>g. case g of NamedLazy n \<Rightarrow> [n] | _ \<Rightarrow> []) segs)"

fun first_some :: "'a option list \<Rightarrow> 'a option" where
  "first_some [] = None"
| "first_some (None # xs) = first_some xs"
| "first_some (Some x # xs) = Some x"

definition dot_run :: "string \<Rightarrow> nat" where
  "dot_run s = length (rest_of_line s)"

fun match_here :: "seg list \<Rightarrow> string \<Rightarrow> (string \<times> string) list option" where
  "match_here [] s = Some []"
| "match_here (Lit c # segs) s =
     (case s of
        [] \<Rightarrow> None
      | d # ds \<Rightarrow> if lower_char c = lower_char d then match_here segs ds else None)"
| "match_here (AnyGreedy # segs) s =
     first_some (map (\<lambda>k. match_here segs (drop k s)) (rev [1..<Suc (dot_run s)]))"
| "match_here (NamedLazy n # segs) s =
     first_some (map (\<lambda>k. map_option (Cons (n, take k s)) (match_here segs (drop k s)))
                   [1..<Suc (dot_run s)])"

definition match_anywhere :: "seg list \<Rightarrow> string \<Rightarrow> (string \<times> string) list option" where
  "match_anywhere segs s =
     first_some (map (\<lambda>i. match_here segs (drop i s)) [0..<Suc (length s)])"

definition simple_regexp :: regexp where
  "simple_regexp src text =
     (case parse_regex src of
        None \<Rightarrow> Inl SyntaxError
      | Some segs \<Rightarrow>
          if list_all group_name_ok (group_names segs) \<and> distinct (group_names segs)
          then Inr (match_anywhere segs text)
          else Inl SyntaxError)"

section \<open>Notions used in the statements\<close>

text \<open>
  The relevance score in the words of the specification (4.1), on notions that do not
  come from the code: \<open>x\<close> is a substring of \<open>y\<close>; \<open>ts\<close> are the pieces of \<open>s\<close> between
  its single spaces (at least one piece, no space inside a piece, and the pieces joined
  by single spaces give \<open>s\<close> back); the score of a query with pieces \<open>qs\<close> against a
  content with pieces \<open>cs\<close>, where \<open>whole\<close> says whether the content contains the whole
  query.
\<close>

definition is_substring :: "string \<Rightarrow> string \<Rightarrow> bool" where
  "is_substring x y \<longleftrightarrow> (\<exists>p r. y = p @ x @ r)"

definition pieces :: "string \<Rightarrow> string list \<Rightarrow> bool" where
  "pieces s ts \<longleftrightarrow>
     ts \<noteq> [] \<and> list_all (\<lambda>t. CHR '' '' \<notin> set t) ts \<and> join '' '' ts = s"

definition score_of_tokens :: "string list \<Rightarrow> string list \<Rightarrow> bool \<Rightarrow> real" where
  "score_of_tokens qs cs whole =
     (let matches = length (filter (\<lambda>t. \<exists>u \<in> set cs. is_substring t u \<or> is_substring u t) qs);
          similarity = (if qs = [] then 0 else real matches / real (length qs))
      in if whole then min (similarity + 0.5) 1 else similarity)"

definition keeps_tiers :: "memory \<Rightarrow> memory \<Rightarrow> bool" where
  "keeps_tiers m m' \<longleftrightarrow>
     shortTerm m' = shortTerm m \<and> episodic m' = episodic m \<and>
     shortTermCapacity m' = shortTermCapacity m \<and>
     longTermCapacity m' = longTermCapacity m \<and>
     episodicCapacity m' = episodicCapacity m"

definition within_capacity :: "memory \<Rightarrow> bool" where
  "within_capacity m \<longleftrightarrow>
     int (length (shortTerm m)) \<le> shortTermCapacity m \<and>
     int (length (longTerm m)) \<le> longTermCapacity m \<and>
     int (length (episodic m)) \<le> episodicCapacity m"

definition sound :: "memory \<Rightarrow> bool" where
  "sound m \<longleftrightarrow>
     distinct (map fst (longTerm m)) \<and> 0 \<le> shortTermCapacity m \<and>
     0 \<le> longTermCapacity m \<and> 0 \<le> episodicCapacity m"

definition nonneg_capacity :: "int option \<Rightarrow> bool" where
  "nonneg_capacity v = (case v of None \<Rightarrow> True | Some c \<Rightarrow> 0 \<le> c)"

text \<open>What one turn of the decay loop does to the item it visits.\<close>

definition decay_item :: "real \<Rightarrow> int \<Rightarrow> ltItem \<Rightarrow> ltItem option" where
  "decay_item rate now item =
     (if now - lt_lastAccess item > 86400000
      then (let item' = item\<lparr> lt_importance := lt_importance item *
                          exp (- rate * (real_of_int (now - lt_lastAccess item) / 86400000)) \<rparr>
            in if lt_importance item' < 0.1 \<and> \<not> lt_consolidated item' then None
               else Some item')
      else Some item)"

definition nonneg_importance :: "memory \<Rightarrow> bool" where
  "nonneg_importance m = list_all (\<lambda>entry. 0 \<le> lt_importance (snd entry)) (longTerm m)"

text \<open>
  The steps that a call of \<^verbatim>\<open>applyRules\<close> may append: rule applications, each recorded
  with the depth of the call that made it. \<open>step_bound n k\<close> bounds how many a call can
  append with \<open>n\<close> rules and \<open>k\<close> levels left.
\<close>

definition rule_steps_within :: "int \<Rightarrow> int \<Rightarrow> step list \<Rightarrow> bool" where
  "rule_steps_within lo hi new =
     list_all (\<lambda>s. case s of RuleApplication name content conf d \<Rightarrow> lo \<le> d \<and> d < hi
                    | _ \<Rightarrow> False) new"

fun step_bound :: "nat \<Rightarrow> nat \<Rightarrow> nat" where
  "step_bound n 0 = 0"
| "step_bound n (Suc k) = n * Suc (step_bound n k)"

definition extends_by :: "int \<Rightarrow> int \<Rightarrow> nat \<Rightarrow> engine \<times> reasoningChain \<Rightarrow> engine \<times> reasoningChain \<Rightarrow> bool" where
  "extends_by lo hi bound et et' \<longleftrightarrow>
     (\<exists>new. steps (snd et') = steps (snd et) @ new \<and> rule_steps_within lo hi new \<and>
            length new \<le> bound) \<and>
     map fst (rules (fst et')) = map fst (rules (fst et))"

text \<open>
  The max-confidence merge, read off the ghost field: as many merged confidences as
  conclusions, and the aggregate is their maximum (0 when there is none), or else it is
  0 while every merged confidence is negative.
\<close>

definition max_merged :: "reasoningChain \<Rightarrow> bool" where
  "max_merged t \<longleftrightarrow>
     length (merged t) = length (conclusions t) \<and>
     (confidence t = (if merged t = [] then 0 else Max (set (merged t))) \<or>
      (merged t \<noteq> [] \<and> Max (set (merged t)) < 0 \<and> confidence t = 0))"




section \<open>Properties of the relevance score\<close>

lemma split_not_Nil: "split sep s \<noteq> []"
  by (induction s) (auto split: list.splits)

lemma startsWith_iff: "startsWith s t \<longleftrightarrow> (\<exists>r. s = t @ r)"
  by (induction s t rule: startsWith.induct) auto

text \<open>\<^const>\<open>str_includes\<close> is the substring test.\<close>

lemma str_includes_iff: "str_includes s t \<longleftrightarrow> (\<exists>p r. s = p @ t @ r)"
proof (induction s)
  case Nil
  then show ?case by auto
next
  case (Cons c cs)
  show ?case
  proof
    assume "str_includes (c # cs) t"
    then consider "startsWith (c # cs) t" | "str_includes cs t" by auto
    then show "\<exists>p r. c # cs = p @ t @ r"
    proof cases
      case 1
      then obtain r where "c # cs = t @ r" by (auto simp: startsWith_iff)
      then have "c # cs = [] @ t @ r" by simp
      then show ?thesis by blast
    next
      case 2
      with Cons.IH obtain p r where "cs = p @ t @ r" by blast
      then have "c # cs = (c # p) @ t @ r" by simp
      then show ?thesis by blast
    qed
  next
    assume "\<exists>p r. c # cs = p @ t @ r"
    then obtain p r where e: "c # cs = p @ t @ r" by blast
    show "str_includes (c # cs) t"
    proof (cases p)
      case Nil
      with e have "startsWith (c # cs) t" by (auto simp: startsWith_iff)
      then show ?thesis by simp
    next
      case (Cons d p')
      with e have "cs = p' @ t @ r" by simp
      with Cons.IH have "str_includes cs t" by blast
      then show ?thesis by simp
    qed
  qed
qed

lemma str_includes_is_substring: "str_includes s t \<longleftrightarrow> is_substring t s"
  by (simp add: str_includes_iff is_substring_def)

text \<open>\<^const>\<open>split\<close> gives the pieces between the separators, and nothing else does.\<close>

lemma join_Cons_Cons: "join sep ((c # t) # ts) = c # join sep (t # ts)"
  by (cases ts) simp_all

lemma join_split: "join [sep] (split sep s) = s"
proof (induction s)
  case Nil
  then show ?case by simp
next
  case (Cons c cs)
  obtain t ts where s: "split sep cs = t # ts"
    using split_not_Nil [of sep cs] by (cases "split sep cs") auto
  show ?case
  proof (cases "c = sep")
    case True
    then show ?thesis using Cons.IH s by simp
  next
    case False
    then have "split sep (c # cs) = (c # t) # ts" using s by simp
    then show ?thesis using Cons.IH s by (simp add: join_Cons_Cons)
  qed
qed

lemma split_sep_free: "list_all (\<lambda>t. sep \<notin> set t) (split sep s)"
proof (induction s)
  case Nil
  then show ?case by simp
next
  case (Cons c cs)
  obtain t ts where s: "split sep cs = t # ts"
    using split_not_Nil [of sep cs] by (cases "split sep cs") auto
  show ?case using Cons.IH s by auto
qed

lemma split_single: "sep \<notin> set t \<Longrightarrow> split sep t = [t]"
  by (induction t) auto

lemma split_append: "sep \<notin> set t \<Longrightarrow> split sep (t @ sep # rest) = t # split sep rest"
  by (induction t) auto

lemma split_join:
  "ts \<noteq> [] \<Longrightarrow> list_all (\<lambda>t. sep \<notin> set t) ts \<Longrightarrow> split sep (join [sep] ts) = ts"
proof (induction ts)
  case Nil
  then show ?case by simp
next
  case (Cons t ts)
  show ?case
  proof (cases ts)
    case Nil
    then show ?thesis using Cons.prems by (simp add: split_single)
  next
    case (Cons u us)
    then have "split sep (join [sep] ts) = ts" using Cons.IH Cons.prems by simp
    moreover have "join [sep] (t # ts) = t @ sep # join [sep] ts" using Cons by simp
    moreover have "sep \<notin> set t" using Cons.prems by simp
    ultimately show ?thesis by (simp add: split_append)
  qed
qed

lemma pieces_iff_split: "pieces s ts \<longleftrightarrow> ts = split CHR '' '' s"
proof
  assume "pieces s ts"
  then have "ts \<noteq> []" "list_all (\<lambda>t. CHR '' '' \<notin> set t) ts" "join '' '' ts = s"
    by (simp_all add: pieces_def)
  then show "ts = split CHR '' '' s" using split_join [of ts "CHR '' ''"] by auto
next
  assume "ts = split CHR '' '' s"
  then show "pieces s ts"
    using join_split [of "CHR '' ''" s] split_sep_free [of "CHR '' ''" s]
      split_not_Nil [of "CHR '' ''" s]
    by (simp add: pieces_def)
qed

lemma similarity_range:
  assumes "qs \<noteq> []"
  shows "0 \<le> real (length (filter P qs)) / real (length qs)"
    and "real (length (filter P qs)) / real (length qs) \<le> 1"
proof -
  show "0 \<le> real (length (filter P qs)) / real (length qs)" by simp
  have "length (filter P qs) \<le> length qs" by (rule length_filter_le)
  moreover have "0 < length qs" using assms by simp
  ultimately show "real (length (filter P qs)) / real (length qs) \<le> 1" by simp
qed

lemma calculateRelevance_range:
  "0 \<le> calculateRelevance lc query content \<and> calculateRelevance lc query content \<le> 1"
proof (cases query)
  case (JString q)
  show ?thesis
  proof (cases content)
    case (JString c)
    let ?qs = "split CHR '' '' (lc q)"
    have ne: "?qs \<noteq> []" by (rule split_not_Nil)
    note r = similarity_range [OF ne]
    show ?thesis
      using r unfolding calculateRelevance_def \<open>query = JString q\<close> JString
      by (simp add: Let_def min_def add_nonneg_nonneg)
  qed (simp_all add: calculateRelevance_def JString)
qed (simp_all add: calculateRelevance_def)

lemma calculateRelevance_spec:
  "calculateRelevance lc (JString q) (JString c) =
     score_of_tokens (split CHR '' '' (lc q)) (split CHR '' '' (lc c))
       (is_substring (lc q) (lc c))"
  by (simp add: calculateRelevance_def score_of_tokens_def Let_def list_ex_iff
        str_includes_is_substring split_not_Nil disj_commute)

lemma split_blank: "list_all (\<lambda>x. x = sep) s \<Longrightarrow> list_all (\<lambda>t. t = []) (split sep s)"
  by (induction s) auto

lemma str_includes_Nil: "str_includes u []"
  by (cases u) simp_all

lemma calculateRelevance_blank:
  assumes "list_all (\<lambda>x. x = CHR '' '') (lc q)"
  shows "calculateRelevance lc (JString q) (JString c) = 1"
proof -
  let ?qs = "split CHR '' '' (lc q)" and ?cs = "split CHR '' '' (lc c)"
  have e: "list_all (\<lambda>t. t = []) ?qs" using assms by (rule split_blank)
  obtain u us where cs: "?cs = u # us"
    using split_not_Nil [of "CHR '' ''" "lc c"] by (cases ?cs) auto
  have "\<And>t. t \<in> set ?qs \<Longrightarrow>
          list_ex (\<lambda>cToken. str_includes cToken t \<or> str_includes t cToken) ?cs"
    using e cs by (auto simp: list_all_iff str_includes_Nil)
  then have "filter (\<lambda>t. list_ex (\<lambda>cToken. str_includes cToken t \<or> str_includes t cToken) ?cs) ?qs
               = ?qs"
    by (simp add: filter_id_conv)
  moreover have "0 < length ?qs" using split_not_Nil [of "CHR '' ''" "lc q"] by simp
  ultimately show ?thesis by (simp add: calculateRelevance_def Let_def)
qed

text \<open>
  Claim C6, as amended. Take any lower-casing \<open>lc\<close>. When \<open>qs\<close> are the pieces of the
  lower-cased query between its single spaces and \<open>cs\<close> those of the lower-cased content,
  the score of two strings is what the specification describes: the number of query
  pieces that are a substring of some content piece, or have one as a substring, divided
  by the number of query pieces, raised by one half and capped at 1 when the lower-cased
  query is a substring of the lower-cased content. Every string has such pieces, exactly
  one list of them (the one \<^verbatim>\<open>split(' ')\<close> computes), and never none, so the division is
  never by zero. The score always lies in [0, 1]; it is 0 as soon as one of the two
  arguments is not a string; and a query whose lower-cased text is empty or all spaces
  scores 1 against every content string.
\<close>

theorem calculateRelevance_score:
  "(pieces (lc q) qs \<and> pieces (lc c) cs \<longrightarrow>
      calculateRelevance lc (JString q) (JString c)
        = score_of_tokens qs cs (is_substring (lc q) (lc c)))
   \<and> (pieces s ts \<longleftrightarrow> ts = split CHR '' '' s)
   \<and> 0 \<le> calculateRelevance lc query content \<and> calculateRelevance lc query content \<le> 1
   \<and> calculateRelevance lc (JObject r) content = 0
   \<and> calculateRelevance lc JUndefined content = 0
   \<and> calculateRelevance lc query (JObject r) = 0
   \<and> calculateRelevance lc query JUndefined = 0
   \<and> (list_all (\<lambda>x. x = CHR '' '') (lc q) \<longrightarrow>
        calculateRelevance lc (JString q) (JString c) = 1)"
proof -
  have a: "pieces (lc q) qs \<and> pieces (lc c) cs \<longrightarrow>
      calculateRelevance lc (JString q) (JString c)
        = score_of_tokens qs cs (is_substring (lc q) (lc c))"
    by (simp add: pieces_iff_split calculateRelevance_spec)
  have b: "pieces s ts \<longleftrightarrow> ts = split CHR '' '' s" by (rule pieces_iff_split)
  have c: "calculateRelevance lc (JObject r) content = 0"
    "calculateRelevance lc JUndefined content = 0"
    by (simp_all add: calculateRelevance_def)
  have d: "calculateRelevance lc query (JObject r) = 0"
    "calculateRelevance lc query JUndefined = 0"
    by (cases query; simp add: calculateRelevance_def)+
  have e: "list_all (\<lambda>x. x = CHR '' '') (lc q) \<longrightarrow>
        calculateRelevance lc (JString q) (JString c) = 1"
    using calculateRelevance_blank by blast
  show ?thesis using a b c d e calculateRelevance_range [of lc query content] by blast
qed

text \<open>
  The score at work: of the two pieces of the query one matches, and the content does not
  contain the whole query; a query of two spaces scores 1.
\<close>

theorem calculateRelevance_score_witness:
  "pieces (ascii_lower ''AI machine'') [''ai'', ''machine''] \<and>
   pieces (ascii_lower ''ai la tri tue'') [''ai'', ''la'', ''tri'', ''tue''] \<and>
   calculateRelevance ascii_lower (JString ''AI machine'') (JString ''ai la tri tue'')
     = score_of_tokens [''ai'', ''machine''] [''ai'', ''la'', ''tri'', ''tue'']
         (is_substring (ascii_lower ''AI machine'') (ascii_lower ''ai la tri tue'')) \<and>
   calculateRelevance ascii_lower (JString ''AI machine'') (JString ''ai la tri tue'') = 1 / 2 \<and>
   list_all (\<lambda>x. x = CHR '' '') (ascii_lower ''  '') \<and>
   calculateRelevance ascii_lower (JString ''  '') (JString ''abc'') = 1"
proof -
  have p: "pieces (ascii_lower ''AI machine'') [''ai'', ''machine'']"
    "pieces (ascii_lower ''ai la tri tue'') [''ai'', ''la'', ''tri'', ''tue'']"
    unfolding pieces_def by code_simp+
  have b: "list_all (\<lambda>x. x = CHR '' '') (ascii_lower ''  '')" by code_simp
  have v: "calculateRelevance ascii_lower (JString ''AI machine'') (JString ''ai la tri tue'')
             = 1 / 2"
    by code_simp
  have "calculateRelevance ascii_lower (JString ''AI machine'') (JString ''ai la tri tue'')
     = score_of_tokens [''ai'', ''machine''] [''ai'', ''la'', ''tri'', ''tue'']
         (is_substring (ascii_lower ''AI machine'') (ascii_lower ''ai la tri tue''))"
    using calculateRelevance_score [where lc = ascii_lower and q = "''AI machine''"
            and qs = "[''ai'', ''machine'']" and c = "''ai la tri tue''"
            and cs = "[''ai'', ''la'', ''tri'', ''tue'']"] p
    by blast
  moreover have "calculateRelevance ascii_lower (JString ''  '') (JString ''abc'') = 1"
    using calculateRelevance_score [where lc = ascii_lower and q = "''  ''" and c = "''abc''"] b
    by blast
  ultimately show ?thesis using p b v by blast
qed

text \<open>
  Claim C6 as stated fails for the query without any word: the empty query splits into
  the single empty token, which every content token contains, and the score is 1, not 0.
\<close>

theorem calculateRelevance_empty_query:
  "split CHR '' '' (ascii_lower []) = [[]] \<and>
   calculateRelevance ascii_lower (JString []) (JString ''abc'') = 1"
  by code_simp

section \<open>Properties of the memory\<close>

subsection \<open>Sorting and eviction\<close>

lemma mset_js_insert: "mset (js_insert cmp x ys) = add_mset x (mset ys)"
  by (induction ys) auto

lemma mset_js_sort: "mset (js_sort cmp xs) = mset xs"
  unfolding js_sort_def by (induction xs) (auto simp: mset_js_insert)

lemma set_js_sort: "set (js_sort cmp xs) = set xs"
  using mset_js_sort [of cmp xs] by (metis set_mset_mset)

lemma length_js_sort: "length (js_sort cmp xs) = length xs"
  using mset_js_sort [of cmp xs] by (metis size_mset)

lemma distinct_js_sort: "distinct (js_sort cmp xs) = distinct xs"
  using mset_js_sort [of cmp xs] by (metis mset_eq_imp_distinct_iff)

lemma forget_all_longTerm:
  "longTerm (foldl (\<lambda>m' entry. forget (fst entry) m') m es) =
     filter (\<lambda>p. fst p \<notin> fst ` set es) (longTerm m)"
proof (induction es arbitrary: m)
  case Nil
  then show ?case by simp
next
  case (Cons e es)
  have "longTerm (forget (fst e) m) = filter (\<lambda>p. fst p \<noteq> fst e) (longTerm m)"
    by (auto simp: forget_def AList.delete_eq intro: filter_cong)
  then show ?case using Cons.IH [of "forget (fst e) m"]
    by (auto intro: filter_cong)
qed

lemma forget_all_keeps: "keeps_tiers m (foldl (\<lambda>m' entry. forget (fst entry) m') m es)"
  by (induction es arbitrary: m) (auto simp: keeps_tiers_def forget_def)

lemma length_remove_sub:
  assumes d: "distinct (map fst lt)" and s: "set es \<subseteq> set lt" and de: "distinct es"
  shows "length (filter (\<lambda>p. fst p \<notin> fst ` set es) lt) = length lt - length es"
proof -
  have dl: "distinct lt" using d by (rule distinct_map [THEN iffD1, THEN conjunct1])
  have inj: "inj_on fst (set lt)" using d by (simp add: distinct_map)
  have eq: "\<And>p. p \<in> set lt \<Longrightarrow> (fst p \<notin> fst ` set es) = (p \<notin> set es)"
  proof -
    fix p assume p: "p \<in> set lt"
    show "(fst p \<notin> fst ` set es) = (p \<notin> set es)"
    proof
      assume "fst p \<notin> fst ` set es" then show "p \<notin> set es" by auto
    next
      assume n: "p \<notin> set es"
      show "fst p \<notin> fst ` set es"
      proof
        assume "fst p \<in> fst ` set es"
        then obtain q where q: "q \<in> set es" "fst q = fst p" by auto
        with s have "q \<in> set lt" by auto
        with inj p q have "q = p" by (auto dest: inj_onD)
        with q n show False by simp
      qed
    qed
  qed
  have "filter (\<lambda>p. fst p \<notin> fst ` set es) lt = filter (\<lambda>p. p \<notin> set es) lt"
    by (rule filter_cong) (simp_all add: eq)
  moreover have "length (filter (\<lambda>p. p \<notin> set es) lt) = card ({p. p \<notin> set es} \<inter> set lt)"
    using dl by (rule distinct_length_filter)
  moreover have "{p. p \<notin> set es} \<inter> set lt = set lt - set es" by auto
  moreover have "card (set lt - set es) = card (set lt) - card (set es)"
    using s by (simp add: card_Diff_subset)
  moreover have "card (set lt) = length lt" using dl by (rule distinct_card)
  moreover have "card (set es) = length es" using de by (rule distinct_card)
  ultimately show ?thesis by simp
qed

lemma manage_length:
  assumes d: "distinct (map fst (longTerm m))" and c: "0 \<le> longTermCapacity m"
  shows "int (length (longTerm (manageLongTermCapacity m))) \<le> longTermCapacity m"
proof (cases "int (length (longTerm m)) \<le> longTermCapacity m")
  case True
  then show ?thesis by (simp add: manageLongTermCapacity_def)
next
  case False
  let ?n = "nat (int (length (longTerm m)) - longTermCapacity m)"
  let ?es = "take ?n (js_sort composite (longTerm m))"
  have dl: "distinct (longTerm m)" using d by (rule distinct_map [THEN iffD1, THEN conjunct1])
  have s: "set ?es \<subseteq> set (longTerm m)"
    using set_take_subset [of ?n "js_sort composite (longTerm m)"] by (simp add: set_js_sort)
  have de: "distinct ?es" using dl by (simp add: distinct_js_sort)
  have le: "length ?es = ?n" using c False by (simp add: length_js_sort)
  have "longTerm (manageLongTermCapacity m) =
          filter (\<lambda>p. fst p \<notin> fst ` set ?es) (longTerm m)"
    using False by (simp add: manageLongTermCapacity_def Let_def forget_all_longTerm)
  then have "length (longTerm (manageLongTermCapacity m)) = length (longTerm m) - ?n"
    using length_remove_sub [OF d s de] le by simp
  then show ?thesis using c False by simp
qed


lemma manage_distinct:
  "distinct (map fst (longTerm m)) \<Longrightarrow> distinct (map fst (longTerm (manageLongTermCapacity m)))"
  by (auto simp: manageLongTermCapacity_def Let_def forget_all_longTerm distinct_map_filter)

lemma manage_keeps: "keeps_tiers m (manageLongTermCapacity m)"
  using forget_all_keeps by (auto simp: manageLongTermCapacity_def Let_def keeps_tiers_def)

lemma length_update_present:
  "k \<in> fst ` set al \<Longrightarrow> length (AList.update k v al) = length al"
  by (induction al) auto


lemma addToLongTerm_inv:
  assumes "sound m" "within_capacity m"
  shows "sound (snd (addToLongTerm key val imp now m)) \<and>
         within_capacity (snd (addToLongTerm key val imp now m)) \<and>
         keeps_tiers m (snd (addToLongTerm key val imp now m))"
proof -
  let ?item = "\<lparr> lt_content = val, lt_importance = imp, lt_timestamp = now,
                  lt_accessCount = 0, lt_lastAccess = now, lt_consolidated = False \<rparr>"
  let ?m1 = "m\<lparr> longTerm := AList.update key ?item (longTerm m),
                 memoryWeights := AList.update key imp (memoryWeights m) \<rparr>"
  have r: "snd (addToLongTerm key val imp now m) = manageLongTermCapacity ?m1"
    by (simp add: addToLongTerm_def Let_def)
  have d1: "distinct (map fst (longTerm ?m1))"
    using assms(1) by (simp add: sound_def distinct_update)
  have c1: "0 \<le> longTermCapacity ?m1" using assms(1) by (simp add: sound_def)
  have k: "keeps_tiers ?m1 (manageLongTermCapacity ?m1)" by (rule manage_keeps)
  have l: "int (length (longTerm (manageLongTermCapacity ?m1))) \<le> longTermCapacity ?m1"
    using d1 c1 by (rule manage_length)
  have d: "distinct (map fst (longTerm (manageLongTermCapacity ?m1)))"
    using d1 by (rule manage_distinct)
  show ?thesis
    unfolding r using k l d assms
    by (simp add: sound_def within_capacity_def keeps_tiers_def)
qed

lemma consolidateToLongTerm_inv:
  assumes "sound m" "within_capacity m"
  shows "sound (consolidateToLongTerm item now m) \<and>
         within_capacity (consolidateToLongTerm item now m) \<and>
         keeps_tiers m (consolidateToLongTerm item now m)"
proof -
  let ?key = "''consolidated_'' @ st_id item"
  let ?m1 = "snd (addToLongTerm ?key (st_content item) (st_importance item) now m)"
  note a = addToLongTerm_inv [OF assms, of ?key "st_content item" "st_importance item" now]
  show ?thesis
  proof (cases "map_of (longTerm ?m1) ?key")
    case None
    then have "consolidateToLongTerm item now m = ?m1"
      by (simp add: consolidateToLongTerm_def Let_def)
    then show ?thesis using a by simp
  next
    case (Some it)
    then have r: "consolidateToLongTerm item now m =
        ?m1\<lparr> longTerm := AList.update ?key (it\<lparr> lt_consolidated := True \<rparr>) (longTerm ?m1) \<rparr>"
      by (simp add: consolidateToLongTerm_def Let_def)
    have "?key \<in> fst ` set (longTerm ?m1)" using Some by (metis map_of_eq_None_iff option.distinct(1))
    then have "length (AList.update ?key (it\<lparr> lt_consolidated := True \<rparr>) (longTerm ?m1)) =
               length (longTerm ?m1)"
      by (rule length_update_present)
    then show ?thesis unfolding r using a assms
      by (simp add: sound_def within_capacity_def keeps_tiers_def distinct_update)
  qed
qed

lemma addToShortTerm_inv:
  assumes "sound m" "within_capacity m"
  shows "sound (snd (addToShortTerm lc item now newId m)) \<and>
         within_capacity (snd (addToShortTerm lc item now newId m))"
proof -
  let ?it = "\<lparr> st_content = item, st_timestamp = now,
                st_importance = calculateImportance lc item, st_id = newId \<rparr>"
  let ?m1 = "m\<lparr> shortTerm := shortTerm m @ [?it] \<rparr>"
  show ?thesis
  proof (cases "int (length (shortTerm ?m1)) > shortTermCapacity ?m1")
    case False
    then have "snd (addToShortTerm lc item now newId m) = ?m1"
      by (simp add: addToShortTerm_def Let_def)
    then show ?thesis using assms False by (simp add: sound_def within_capacity_def)
  next
    case True
    obtain removed rest where sp: "shortTerm ?m1 = removed # rest"
      by (cases "shortTerm ?m1") auto
    let ?m2 = "?m1\<lparr> shortTerm := rest \<rparr>"
    have "length (shortTerm ?m1) = Suc (length rest)" using sp by simp
    then have len: "length rest = length (shortTerm m)" by simp
    have s2: "sound ?m2" using assms(1) by (simp add: sound_def)
    have w2: "within_capacity ?m2" using assms(2) len by (simp add: within_capacity_def)
    have r: "snd (addToShortTerm lc item now newId m) =
        (if st_importance removed > 0.7 then consolidateToLongTerm removed now ?m2 else ?m2)"
      using True sp len by (simp add: addToShortTerm_def Let_def)
    show ?thesis
      unfolding r using consolidateToLongTerm_inv [OF s2 w2, of removed now] s2 w2
      by (simp add: sound_def within_capacity_def keeps_tiers_def)
  qed
qed

lemma addEpisodicMemory_inv:
  assumes "sound m" "within_capacity m" "addEpisodicMemory lc event now newId m = Inr (i, m')"
  shows "sound m' \<and> within_capacity m'"
proof -
  obtain emotions where em: "analyzeEmotionalContext lc event = Inr emotions"
    using assms(3) by (cases "analyzeEmotionalContext lc event") (auto simp: addEpisodicMemory_def Let_def)
  let ?ep = "\<lparr> ep_event = event, ep_timestamp = now, ep_context = getCurrentContext lc now m,
                ep_emotions = emotions, ep_importance = calculateImportance lc event,
                ep_id = newId \<rparr>"
  let ?m1 = "m\<lparr> episodic := episodic m @ [?ep] \<rparr>"
  have r: "m' = (if int (length (episodic ?m1)) > episodicCapacity ?m1
                 then ?m1\<lparr> episodic := tl (episodic ?m1) \<rparr> else ?m1)"
    using assms(3) em by (simp add: addEpisodicMemory_def Let_def)
  show ?thesis
    unfolding r using assms(1,2) by (auto simp: sound_def within_capacity_def)
qed

lemma run_call_inv:
  assumes "sound m" "within_capacity m"
  shows "sound (run_call lc c m) \<and> within_capacity (run_call lc c m)"
proof (cases c)
  case (AddToShortTerm item now newId)
  then show ?thesis using addToShortTerm_inv [OF assms] by simp
next
  case (AddToLongTerm key val imp now)
  then show ?thesis using addToLongTerm_inv [OF assms] by simp
next
  case (AddEpisodicMemory event now newId)
  show ?thesis
  proof (cases "addEpisodicMemory lc event now newId m")
    case (Inl e)
    then show ?thesis using assms AddEpisodicMemory by simp
  next
    case (Inr p)
    obtain i m' where p: "p = (i, m')" by (cases p)
    with Inr addEpisodicMemory_inv [OF assms, of lc event now newId i m'] AddEpisodicMemory
    show ?thesis by simp
  qed
qed

lemma run_call_capacities:
  "shortTermCapacity (run_call lc c m) = shortTermCapacity m \<and>
   longTermCapacity (run_call lc c m) = longTermCapacity m \<and>
   episodicCapacity (run_call lc c m) = episodicCapacity m"
proof (cases c)
  case (AddToShortTerm item now newId)
  have k: "\<And>(it :: stItem) m. keeps_tiers m (consolidateToLongTerm it now m)"
  proof -
    fix it :: stItem and m
    have a: "keeps_tiers m (snd (addToLongTerm (''consolidated_'' @ st_id it) (st_content it) (st_importance it) now m))"
      using manage_keeps by (simp add: addToLongTerm_def Let_def keeps_tiers_def)
    then show "keeps_tiers m (consolidateToLongTerm it now m)"
      by (auto simp: consolidateToLongTerm_def Let_def keeps_tiers_def split: option.splits)
  qed
  show ?thesis using k unfolding AddToShortTerm
    by (auto simp: addToShortTerm_def Let_def keeps_tiers_def split: list.splits)
next
  case (AddToLongTerm key val imp now)
  then show ?thesis using manage_keeps by (simp add: addToLongTerm_def Let_def keeps_tiers_def)
next
  case (AddEpisodicMemory event now newId)
  then show ?thesis
    by (auto simp: addEpisodicMemory_def Let_def split: sum.splits)
qed

lemma run_calls_inv:
  "sound m \<Longrightarrow> within_capacity m \<Longrightarrow>
   sound (run_calls lc cs m) \<and> within_capacity (run_calls lc cs m)"
  unfolding run_calls_def
  by (induction cs arbitrary: m) (simp_all add: run_call_inv)

lemma run_calls_capacities:
  "shortTermCapacity (run_calls lc cs m) = shortTermCapacity m \<and>
   longTermCapacity (run_calls lc cs m) = longTermCapacity m \<and>
   episodicCapacity (run_calls lc cs m) = episodicCapacity m"
  unfolding run_calls_def
  by (induction cs arbitrary: m) (simp_all add: run_call_capacities)

lemma or_default_nonneg: "nonneg_capacity v \<Longrightarrow> 0 \<le> d \<Longrightarrow> 0 \<le> or_default v d"
  by (auto simp: nonneg_capacity_def or_default_def split: option.splits)

lemma new_Memory_inv:
  assumes "nonneg_capacity (cfg_shortTermCapacity cfg)"
    "nonneg_capacity (cfg_longTermCapacity cfg)"
    "nonneg_capacity (cfg_episodicCapacity cfg)"
  shows "sound (new_Memory cfg) \<and> within_capacity (new_Memory cfg)"
  using assms by (simp add: sound_def within_capacity_def new_Memory_def or_default_nonneg)

text \<open>
  Claim C1, as amended. Start from the constructor with capacities that are absent or at
  least 0 and run any finite sequence of \<^verbatim>\<open>addToShortTerm\<close>, \<^verbatim>\<open>addToLongTerm\<close> and
  \<^verbatim>\<open>addEpisodicMemory\<close> calls. Then each tier holds at most its effective capacity:
  the configured one when it is at least 1, and the default (10, 1000, 500) when it is
  absent or 0. The keys of the long-term store stay distinct.
\<close>

theorem capacity_invariant:
  assumes "nonneg_capacity (cfg_shortTermCapacity cfg)"
    and "nonneg_capacity (cfg_longTermCapacity cfg)"
    and "nonneg_capacity (cfg_episodicCapacity cfg)"
  shows "int (length (shortTerm (run_calls lc cs (new_Memory cfg))))
           \<le> or_default (cfg_shortTermCapacity cfg) 10
       \<and> int (length (longTerm (run_calls lc cs (new_Memory cfg))))
           \<le> or_default (cfg_longTermCapacity cfg) 1000
       \<and> int (length (episodic (run_calls lc cs (new_Memory cfg))))
           \<le> or_default (cfg_episodicCapacity cfg) 500
       \<and> distinct (map fst (longTerm (run_calls lc cs (new_Memory cfg))))"
proof -
  note n = new_Memory_inv [OF assms]
  have i: "sound (run_calls lc cs (new_Memory cfg)) \<and>
           within_capacity (run_calls lc cs (new_Memory cfg))"
    using n by (simp add: run_calls_inv)
  have c: "shortTermCapacity (run_calls lc cs (new_Memory cfg))
             = or_default (cfg_shortTermCapacity cfg) 10"
    "longTermCapacity (run_calls lc cs (new_Memory cfg))
       = or_default (cfg_longTermCapacity cfg) 1000"
    "episodicCapacity (run_calls lc cs (new_Memory cfg))
       = or_default (cfg_episodicCapacity cfg) 500"
    by (simp_all add: run_calls_capacities new_Memory_def)
  show ?thesis using i c by (simp add: sound_def within_capacity_def)
qed

text \<open>
  The invariant at work: capacities 2, 1 and 1, seven calls that overflow every tier
  (two of them promote an evicted item into the full long-term store).
\<close>

theorem capacity_invariant_witness:
  "nonneg_capacity (Some 2) \<and> nonneg_capacity (Some 1) \<and>
   int (length (shortTerm (run_calls ascii_lower
      [AddToShortTerm (JString ''I love this, it is important'') 1 ''a'',
       AddToShortTerm (JString ''remember what I love'') 2 ''b'',
       AddToShortTerm (JString ''c'') 3 ''c'',
       AddEpisodicMemory (JString ''happy'') 4 ''d'',
       AddToShortTerm (JString ''d'') 5 ''e'',
       AddEpisodicMemory (JString ''sad'') 6 ''f'',
       AddToLongTerm ''k'' (JString ''v'') 0.5 7]
      (new_Memory \<lparr> cfg_shortTermCapacity = Some 2, cfg_longTermCapacity = Some 1,
                     cfg_episodicCapacity = Some 1 \<rparr>)))) \<le> 2 \<and>
   int (length (longTerm (run_calls ascii_lower
      [AddToShortTerm (JString ''I love this, it is important'') 1 ''a'',
       AddToShortTerm (JString ''remember what I love'') 2 ''b'',
       AddToShortTerm (JString ''c'') 3 ''c'',
       AddEpisodicMemory (JString ''happy'') 4 ''d'',
       AddToShortTerm (JString ''d'') 5 ''e'',
       AddEpisodicMemory (JString ''sad'') 6 ''f'',
       AddToLongTerm ''k'' (JString ''v'') 0.5 7]
      (new_Memory \<lparr> cfg_shortTermCapacity = Some 2, cfg_longTermCapacity = Some 1,
                     cfg_episodicCapacity = Some 1 \<rparr>)))) \<le> 1 \<and>
   int (length (episodic (run_calls ascii_lower
      [AddToShortTerm (JString ''I love this, it is important'') 1 ''a'',
       AddToShortTerm (JString ''remember what I love'') 2 ''b'',
       AddToShortTerm (JString ''c'') 3 ''c'',
       AddEpisodicMemory (JString ''happy'') 4 ''d'',
       AddToShortTerm (JString ''d'') 5 ''e'',
       AddEpisodicMemory (JString ''sad'') 6 ''f'',
       AddToLongTerm ''k'' (JString ''v'') 0.5 7]
      (new_Memory \<lparr> cfg_shortTermCapacity = Some 2, cfg_longTermCapacity = Some 1,
                     cfg_episodicCapacity = Some 1 \<rparr>)))) \<le> 1"
proof -
  have h2: "nonneg_capacity (Some 2)" and h1: "nonneg_capacity (Some 1)"
    by (simp_all add: nonneg_capacity_def)
  have "nonneg_capacity (cfg_shortTermCapacity
          \<lparr> cfg_shortTermCapacity = Some 2, cfg_longTermCapacity = Some 1,
            cfg_episodicCapacity = Some 1 \<rparr>)"
    and "nonneg_capacity (cfg_longTermCapacity
          \<lparr> cfg_shortTermCapacity = Some 2, cfg_longTermCapacity = Some 1,
            cfg_episodicCapacity = Some 1 \<rparr>)"
    and "nonneg_capacity (cfg_episodicCapacity
          \<lparr> cfg_shortTermCapacity = Some 2, cfg_longTermCapacity = Some 1,
            cfg_episodicCapacity = Some 1 \<rparr>)"
    using h1 h2 by simp_all
  from capacity_invariant [OF this] h1 h2 show ?thesis
    by (simp add: or_default_def)
qed

text \<open>
  Claim C1 as stated fails at the capacity 0 that it includes: the constructor replaces a
  configured 0 by the default, so a memory configured with short-term capacity 0 holds
  one item after one call.
\<close>

theorem capacity_zero_counterexample:
  "cfg_shortTermCapacity \<lparr> cfg_shortTermCapacity = Some 0, cfg_longTermCapacity = None,
                            cfg_episodicCapacity = None \<rparr> = Some 0 \<and>
   length (shortTerm (run_calls ascii_lower [AddToShortTerm (JString ''a'') 0 ''i1'']
     (new_Memory \<lparr> cfg_shortTermCapacity = Some 0, cfg_longTermCapacity = None,
                    cfg_episodicCapacity = None \<rparr>))) = 1"
  by code_simp

subsection \<open>Promotion from the short-term buffer\<close>





















subsection \<open>Retrieval\<close>

lemma set_js_insert: "set (js_insert cmp x ys) = insert x (set ys)"
  using mset_js_insert [of cmp x ys] by (metis set_mset_add_mset_insert set_mset_mset)

lemma sorted_js_insert:
  assumes "sorted_wrt (\<lambda>a b. r_relevance a \<ge> r_relevance b) ys"
  shows "sorted_wrt (\<lambda>a b. r_relevance a \<ge> r_relevance b) (js_insert by_relevance x ys)"
  using assms
proof (induction ys)
  case Nil
  then show ?case by simp
next
  case (Cons y ys)
  show ?case
  proof (cases "by_relevance x y \<le> 0")
    case True
    then have "r_relevance y \<le> r_relevance x" by (simp add: by_relevance_def)
    moreover have "\<forall>z \<in> set ys. r_relevance z \<le> r_relevance y" using Cons.prems by simp
    ultimately have "\<forall>z \<in> set (y # ys). r_relevance z \<le> r_relevance x" by auto
    then show ?thesis using True Cons.prems by simp
  next
    case False
    then have "r_relevance x \<le> r_relevance y" by (simp add: by_relevance_def)
    moreover have "\<forall>z \<in> set ys. r_relevance z \<le> r_relevance y" using Cons.prems by simp
    ultimately have "\<forall>z \<in> set (js_insert by_relevance x ys). r_relevance z \<le> r_relevance y"
      by (simp add: set_js_insert)
    moreover have "sorted_wrt (\<lambda>a b. r_relevance a \<ge> r_relevance b) (js_insert by_relevance x ys)"
      using Cons by simp
    ultimately show ?thesis using False by simp
  qed
qed

lemma sorted_js_sort:
  "sorted_wrt (\<lambda>a b. r_relevance a \<ge> r_relevance b) (js_sort by_relevance xs)"
  unfolding js_sort_def by (induction xs) (simp_all add: sorted_js_insert)

lemma search_relevant:
  "x \<in> set (searchShortTerm lc query m) \<Longrightarrow> r_relevance x > 0.1"
  "x \<in> set (searchLongTerm lc query m) \<Longrightarrow> r_relevance x > 0.1"
  "x \<in> set (searchEpisodic lc query m) \<Longrightarrow> r_relevance x > 0.1"
  by (auto simp: searchShortTerm_def searchLongTerm_def searchEpisodic_def Let_def
           split: if_splits)

lemma recall_relevant:
  assumes "x \<in> set (fst (recall lc query memoryType now m))"
  shows "r_relevance x > 0.1"
proof -
  have "x \<in> set (searchShortTerm lc query m) \<or> x \<in> set (searchLongTerm lc query m) \<or>
        x \<in> set (searchEpisodic lc query m)"
    using assms by (auto simp: recall_def Let_def set_js_sort split: if_splits)
  then show ?thesis using search_relevant by blast
qed

text \<open>
  Claim C3. For every query, tier filter and memory, the list returned by \<^verbatim>\<open>recall\<close> is in
  descending order of relevance score, and every element of it has a score above 0.1.
  With the filter \<^verbatim>\<open>'all'\<close> the list holds exactly the candidates that the three searches
  let through, each as often as it was found.
\<close>

theorem recall_ordering:
  "sorted_wrt (\<lambda>a b. r_relevance a \<ge> r_relevance b) (fst (recall lc query memoryType now m))
   \<and> list_all (\<lambda>x. r_relevance x > 0.1) (fst (recall lc query memoryType now m))
   \<and> mset (fst (recall lc query ''all'' now m)) =
       mset (searchShortTerm lc query m @ searchLongTerm lc query m @ searchEpisodic lc query m)"
proof -
  have a: "sorted_wrt (\<lambda>a b. r_relevance a \<ge> r_relevance b)
             (fst (recall lc query memoryType now m))"
    by (simp add: recall_def Let_def sorted_js_sort)
  have b: "list_all (\<lambda>x. r_relevance x > 0.1) (fst (recall lc query memoryType now m))"
    using recall_relevant by (auto simp: list_all_iff)
  have c: "mset (fst (recall lc query ''all'' now m)) =
       mset (searchShortTerm lc query m @ searchLongTerm lc query m @ searchEpisodic lc query m)"
    by (simp add: recall_def Let_def mset_js_sort)
  show ?thesis using a b c by simp
qed

subsection \<open>The weight index and the episodic log\<close>

text \<open>
  Claim C8 fails on the code. One entry of importance 0.5 is added to the long-term store
  and recalled seven times. The seventh call of \<^verbatim>\<open>updateAccess\<close> finds an access count
  above the consolidation threshold and raises the entry's weight in \<^verbatim>\<open>memoryWeights\<close> to
  0.6; the \<^verbatim>\<open>importance\<close> field of the stored item is not touched and stays 0.5.
\<close>

theorem weights_diverge_after_recall:
  "(let m = foldl (\<lambda>m' now. snd (recall ascii_lower (JString ''hello'') ''all'' now m'))
              (snd (addToLongTerm ''k'' (JString ''hello'') 0.5 0
                 (new_Memory \<lparr> cfg_shortTermCapacity = None, cfg_longTermCapacity = None,
                                cfg_episodicCapacity = None \<rparr>)))
              [1, 2, 3, 4, 5, 6, 7]
    in map_of (memoryWeights m) ''k'' = Some 0.6 \<and>
       map_option lt_importance (map_of (longTerm m) ''k'') = Some 0.5)"
  by code_simp

text \<open>
  Claim C9 fails on the code. \<^verbatim>\<open>addEpisodicMemory\<close> hands its event to
  \<^verbatim>\<open>analyzeEmotionalContext\<close>, which calls \<^verbatim>\<open>toLowerCase\<close> on it without the \<^verbatim>\<open>typeof\<close>
  test that \<^verbatim>\<open>calculateImportance\<close> and \<^verbatim>\<open>calculateRelevance\<close> make: for an event that is
  an object (as the agent's own \<^verbatim>\<open>learnFromInteraction\<close> passes) or \<^verbatim>\<open>undefined\<close> the
  call throws a \<^verbatim>\<open>TypeError\<close>, in every memory, where the two guarded helpers give their
  neutral values 0.5 and 0.
\<close>

theorem addEpisodicMemory_object_throws:
  "addEpisodicMemory lc (JObject r) now newId m = Inl TypeError
   \<and> addEpisodicMemory lc JUndefined now newId m = Inl TypeError
   \<and> calculateImportance lc (JObject r) = 0.5
   \<and> calculateRelevance lc query (JObject r) = 0"
proof -
  have "calculateRelevance lc query (JObject r) = 0"
    by (cases query) (simp_all add: calculateRelevance_def)
  then show ?thesis
    by (simp add: addEpisodicMemory_def analyzeEmotionalContext_def Let_def
          calculateImportance_def)
qed

subsection \<open>Decay\<close>

lemma decay_entry_rate: "decayRate (decay_entry now e m) = decayRate m"
  by (simp add: decay_entry_def Let_def forget_def)

lemma decay_entry_map_of:
  "map_of (longTerm (decay_entry now e m)) k =
     (if k = fst e
      then (case decay_item (decayRate m) now (snd e) of
              None \<Rightarrow> None
            | Some item' \<Rightarrow> if now - lt_lastAccess (snd e) > 86400000 then Some item'
                            else map_of (longTerm m) k)
      else map_of (longTerm m) k)"
  by (simp add: decay_entry_def decay_item_def Let_def forget_def update_conv' delete_conv')

lemma decay_entry_distinct:
  "distinct (map fst (longTerm m)) \<Longrightarrow> distinct (map fst (longTerm (decay_entry now e m)))"
  by (simp add: decay_entry_def Let_def forget_def distinct_update distinct_delete)

lemma decay_fold_rate:
  "decayRate (foldl (\<lambda>m' e. decay_entry now e m') m es) = decayRate m"
  by (induction es arbitrary: m) (simp_all add: decay_entry_rate)

lemma decay_fold_distinct:
  "distinct (map fst (longTerm m)) \<Longrightarrow>
   distinct (map fst (longTerm (foldl (\<lambda>m' e. decay_entry now e m') m es)))"
  by (induction es arbitrary: m) (simp_all add: decay_entry_distinct)

lemma decay_fold_map_of:
  assumes "distinct (map fst es)"
  shows "map_of (longTerm (foldl (\<lambda>m' e. decay_entry now e m') m es)) k =
     (case map_of es k of
        None \<Rightarrow> map_of (longTerm m) k
      | Some item \<Rightarrow>
          (case decay_item (decayRate m) now item of
             None \<Rightarrow> None
           | Some item' \<Rightarrow> if now - lt_lastAccess item > 86400000 then Some item'
                           else map_of (longTerm m) k))"
  using assms
proof (induction es arbitrary: m)
  case Nil
  then show ?case by simp
next
  case (Cons e es)
  have d: "distinct (map fst es)" and n: "fst e \<notin> fst ` set es" using Cons.prems by auto
  note ih = Cons.IH [OF d, of "decay_entry now e m"]
  show ?case
  proof (cases "k = fst e")
    case True
    then have "map_of es k = None" using n by (simp add: map_of_eq_None_iff)
    then show ?thesis using ih True
      by (cases e) (auto simp: decay_entry_map_of decay_entry_rate split: option.splits)
  next
    case False
    then show ?thesis using ih
      by (cases e) (auto simp: decay_entry_map_of decay_entry_rate split: option.splits)
  qed
qed

lemma applyDecay_map_of:
  assumes "distinct (map fst (longTerm m))"
  shows "map_of (longTerm (applyDecay now m)) k =
     (case map_of (longTerm m) k of
        None \<Rightarrow> None
      | Some item \<Rightarrow> decay_item (decayRate m) now item)"
  unfolding applyDecay_def decay_fold_map_of [OF assms]
  by (auto simp: decay_item_def split: option.splits)

lemma decay_factor_le_one:
  assumes "0 \<le> rate" "0 \<le> (t :: int)"
  shows "exp (- rate * (real_of_int t / 86400000)) \<le> 1"
proof -
  have "0 \<le> rate * (real_of_int t / 86400000)" using assms by simp
  then show ?thesis by simp
qed

lemma decay_item_le:
  assumes "decay_item rate now item = Some item'" "0 \<le> rate" "0 \<le> lt_importance item"
  shows "lt_importance item' \<le> lt_importance item \<and> 0 \<le> lt_importance item'"
proof (cases "now - lt_lastAccess item > 86400000")
  case False
  then show ?thesis using assms by (simp add: decay_item_def)
next
  case True
  let ?f = "exp (- rate * (real_of_int (now - lt_lastAccess item) / 86400000))"
  have i: "lt_importance item' = lt_importance item * ?f"
    using assms(1) True by (auto simp: decay_item_def Let_def split: if_splits)
  have "?f \<le> 1" using assms(2) True by (intro decay_factor_le_one) simp_all
  moreover have "0 \<le> ?f" by simp
  ultimately show ?thesis unfolding i using assms(3)
    by (simp add: mult_left_le mult_nonneg_nonneg)
qed

lemma nonneg_importance_iff:
  assumes "distinct (map fst (longTerm m))"
  shows "nonneg_importance m \<longleftrightarrow>
         (\<forall>k item. map_of (longTerm m) k = Some item \<longrightarrow> 0 \<le> lt_importance item)"
proof -
  have "\<And>k item. (map_of (longTerm m) k = Some item) = ((k, item) \<in> set (longTerm m))"
    using assms by simp
  then show ?thesis by (auto simp: nonneg_importance_def list_all_iff)
qed

lemma applyDecay_inv:
  assumes d: "distinct (map fst (longTerm m))" and r: "0 \<le> decayRate m"
    and n: "nonneg_importance m"
  shows "distinct (map fst (longTerm (applyDecay now m))) \<and>
         decayRate (applyDecay now m) = decayRate m \<and>
         nonneg_importance (applyDecay now m)"
proof -
  have d': "distinct (map fst (longTerm (applyDecay now m)))"
    unfolding applyDecay_def using d by (rule decay_fold_distinct)
  have r': "decayRate (applyDecay now m) = decayRate m"
    unfolding applyDecay_def by (rule decay_fold_rate)
  have "\<And>k item'. map_of (longTerm (applyDecay now m)) k = Some item' \<Longrightarrow>
          0 \<le> lt_importance item'"
  proof -
    fix k item'
    assume a: "map_of (longTerm (applyDecay now m)) k = Some item'"
    then obtain item where i: "map_of (longTerm m) k = Some item"
      and di: "decay_item (decayRate m) now item = Some item'"
      by (auto simp: applyDecay_map_of [OF d] split: option.splits)
    have "0 \<le> lt_importance item"
      using n i by (simp add: nonneg_importance_iff [OF d])
    with di r show "0 \<le> lt_importance item'" using decay_item_le by blast
  qed
  then have "nonneg_importance (applyDecay now m)"
    by (simp add: nonneg_importance_iff [OF d'])
  with d' r' show ?thesis by simp
qed

lemma applyDecay_le:
  assumes d: "distinct (map fst (longTerm m))" and r: "0 \<le> decayRate m"
    and n: "nonneg_importance m"
    and a: "map_of (longTerm (applyDecay now m)) k = Some item'"
  shows "\<exists>item. map_of (longTerm m) k = Some item \<and> lt_importance item' \<le> lt_importance item"
proof -
  obtain item where i: "map_of (longTerm m) k = Some item"
    and di: "decay_item (decayRate m) now item = Some item'"
    using a by (auto simp: applyDecay_map_of [OF d] split: option.splits)
  have "0 \<le> lt_importance item" using n i by (simp add: nonneg_importance_iff [OF d])
  with di r have "lt_importance item' \<le> lt_importance item" using decay_item_le by blast
  with i show ?thesis by blast
qed

lemma applyDecay_repeated_le:
  assumes "distinct (map fst (longTerm m))" "0 \<le> decayRate m" "nonneg_importance m"
    and "map_of (longTerm (foldl (\<lambda>m' now. applyDecay now m') m nows)) k = Some item'"
  shows "\<exists>item. map_of (longTerm m) k = Some item \<and> lt_importance item' \<le> lt_importance item"
  using assms
proof (induction nows arbitrary: m)
  case Nil
  then show ?case by simp
next
  case (Cons now nows)
  note inv = applyDecay_inv [OF Cons.prems(1-3), of now]
  have "\<exists>it1. map_of (longTerm (applyDecay now m)) k = Some it1 \<and>
              lt_importance item' \<le> lt_importance it1"
    using Cons.IH [of "applyDecay now m"] inv Cons.prems(2,4) by simp
  then obtain it1 where s: "map_of (longTerm (applyDecay now m)) k = Some it1"
    and l: "lt_importance item' \<le> lt_importance it1" by blast
  from applyDecay_le [OF Cons.prems(1-3) s] l show ?case by force
qed

text \<open>
  Claim C10. Take a long-term store (a \<^verbatim>\<open>Map\<close>, so its keys are distinct) whose items have
  importance at least 0, as the data model has it, and a decay rate that is not negative
  (the constructor sets 0.1). After any number of \<^verbatim>\<open>applyDecay\<close> calls, at any times and
  with nothing else in between, every item still stored was stored before under the same
  key with at least the importance it has now. And in one call, an item that is past the
  24-hour horizon, whose decayed importance is below 0.1 and that is not consolidated, is
  gone from the store afterwards.
\<close>

theorem decay_monotone:
  assumes "distinct (map fst (longTerm m))" and "0 \<le> decayRate m"
    and "nonneg_importance m"
  shows "(\<forall>k item'.
            map_of (longTerm (foldl (\<lambda>m' now. applyDecay now m') m nows)) k = Some item' \<longrightarrow>
            (\<exists>item. map_of (longTerm m) k = Some item \<and>
                    lt_importance item' \<le> lt_importance item))
       \<and> (\<forall>k item.
            map_of (longTerm m) k = Some item \<and>
            now - lt_lastAccess item > 86400000 \<and>
            lt_importance item *
              exp (- decayRate m * (real_of_int (now - lt_lastAccess item) / 86400000)) < 0.1 \<and>
            \<not> lt_consolidated item \<longrightarrow>
            map_of (longTerm (applyDecay now m)) k = None)"
proof -
  have a: "\<forall>k item'.
            map_of (longTerm (foldl (\<lambda>m' now. applyDecay now m') m nows)) k = Some item' \<longrightarrow>
            (\<exists>item. map_of (longTerm m) k = Some item \<and>
                    lt_importance item' \<le> lt_importance item)"
    using applyDecay_repeated_le [OF assms] by blast
  have b: "\<forall>k item.
            map_of (longTerm m) k = Some item \<and>
            now - lt_lastAccess item > 86400000 \<and>
            lt_importance item *
              exp (- decayRate m * (real_of_int (now - lt_lastAccess item) / 86400000)) < 0.1 \<and>
            \<not> lt_consolidated item \<longrightarrow>
            map_of (longTerm (applyDecay now m)) k = None"
    by (simp add: applyDecay_map_of [OF assms(1)] decay_item_def Let_def)
  show ?thesis using a b by blast
qed

text \<open>
  Two days without access at rate 0.1: the item of importance 0.05 that is not
  consolidated is purged, the consolidated item of importance 0.9 stays with an
  importance of at most 0.9.
\<close>

theorem decay_monotone_witness:
  "map_of (longTerm (applyDecay 172800000
      \<lparr> shortTermCapacity = 10, longTermCapacity = 1000, episodicCapacity = 500,
        shortTerm = [],
        longTerm = [(''a'', \<lparr> lt_content = JString ''x'', lt_importance = 0.05,
                             lt_timestamp = 0, lt_accessCount = 0, lt_lastAccess = 0,
                             lt_consolidated = False \<rparr>),
                    (''b'', \<lparr> lt_content = JString ''y'', lt_importance = 0.9,
                             lt_timestamp = 0, lt_accessCount = 0, lt_lastAccess = 0,
                             lt_consolidated = True \<rparr>)],
        episodic = [], memoryWeights = [(''a'', 0.05), (''b'', 0.9)], accessCount = [],
        lastAccess = [], decayRate = 0.1, consolidationThreshold = 5 \<rparr>)) ''a'' = None \<and>
   (\<exists>item'. map_of (longTerm (foldl (\<lambda>m' now. applyDecay now m')
      \<lparr> shortTermCapacity = 10, longTermCapacity = 1000, episodicCapacity = 500,
        shortTerm = [],
        longTerm = [(''a'', \<lparr> lt_content = JString ''x'', lt_importance = 0.05,
                             lt_timestamp = 0, lt_accessCount = 0, lt_lastAccess = 0,
                             lt_consolidated = False \<rparr>),
                    (''b'', \<lparr> lt_content = JString ''y'', lt_importance = 0.9,
                             lt_timestamp = 0, lt_accessCount = 0, lt_lastAccess = 0,
                             lt_consolidated = True \<rparr>)],
        episodic = [], memoryWeights = [(''a'', 0.05), (''b'', 0.9)], accessCount = [],
        lastAccess = [], decayRate = 0.1, consolidationThreshold = 5 \<rparr> [172800000])) ''b''
        = Some item' \<and> lt_importance item' \<le> 0.9)"
proof -
  let ?a = "\<lparr> lt_content = JString ''x'', lt_importance = 0.05,
               lt_timestamp = 0, lt_accessCount = 0, lt_lastAccess = 0,
               lt_consolidated = False \<rparr>"
  let ?b = "\<lparr> lt_content = JString ''y'', lt_importance = 0.9,
               lt_timestamp = 0, lt_accessCount = 0, lt_lastAccess = 0,
               lt_consolidated = True \<rparr>"
  let ?m = "\<lparr> shortTermCapacity = 10, longTermCapacity = 1000, episodicCapacity = 500,
        shortTerm = [], longTerm = [(''a'', ?a), (''b'', ?b)],
        episodic = [], memoryWeights = [(''a'', 0.05), (''b'', 0.9)], accessCount = [],
        lastAccess = [], decayRate = 0.1, consolidationThreshold = 5 \<rparr>"
  have d: "distinct (map fst (longTerm ?m))" by simp
  have r: "0 \<le> decayRate ?m" by simp
  have n: "nonneg_importance ?m" by (simp add: nonneg_importance_def)
  note t = decay_monotone [OF d r n, of "[172800000]" 172800000]
  have f: "exp (- (1 / 5) :: real) \<le> 1" by simp
  have "(5 / 100 :: real) * exp (- (1 / 5)) < 1 / 10" using f by linarith
  then have low: "lt_importance ?a *
          exp (- decayRate ?m * (real_of_int (172800000 - lt_lastAccess ?a) / 86400000)) < 0.1"
    by simp
  have pa: "map_of (longTerm ?m) ''a'' = Some ?a \<and> 172800000 - lt_lastAccess ?a > 86400000 \<and>
            \<not> lt_consolidated ?a" by simp
  from t pa low have ra: "map_of (longTerm (applyDecay 172800000 ?m)) ''a'' = None" by blast
  have "map_of (longTerm (applyDecay 172800000 ?m)) ''b'' =
          (case map_of (longTerm ?m) ''b'' of
             None \<Rightarrow> None
           | Some item \<Rightarrow> decay_item (decayRate ?m) 172800000 item)"
    by (rule applyDecay_map_of [OF d])
  then obtain item' where
    sb: "map_of (longTerm (foldl (\<lambda>m' now. applyDecay now m') ?m [172800000])) ''b'' = Some item'"
    by (simp add: decay_item_def Let_def)
  from t sb obtain item where "map_of (longTerm ?m) ''b'' = Some item"
    and "lt_importance item' \<le> lt_importance item" by blast
  then have "lt_importance item' \<le> 0.9" by auto
  with sb ra show ?thesis by blast
qed

section \<open>Properties of the reasoning engine\<close>

subsection \<open>The modus ponens example\<close>

lemma modus_ponens_source:
  "named_groups ''if {A} then {B}'' = ''if (?<A>.+?) then (?<B>.+?)''"
  by code_simp

lemma modus_ponens_groups:
  "simple_regexp ''if (?<A>.+?) then (?<B>.+?)'' ''if rain then wet''
     = Inr (Some [(''A'', ''rain''), (''B'', ''w'')])"
  by code_simp

text \<open>
  Claim C7 fails on the code. \<^verbatim>\<open>extractVariables\<close> turns the template into
  \<^verbatim>\<open>if (?<A>.+?) then (?<B>.+?)\<close>; nothing follows the last lazy group, so it stops after
  one character: on \<^verbatim>\<open>if rain then wet\<close> the match is \<^verbatim>\<open>if rain then w\<close>, \<open>B\<close> is \<^verbatim>\<open>w\<close>,
  and the built-in rule \<^verbatim>\<open>modus_ponens\<close> concludes \<^verbatim>\<open>w\<close>, with confidence 0.9, not
  \<^verbatim>\<open>wet\<close>.
\<close>

theorem modus_ponens_lazy_group:
  "(case map_of (rules (new_ReasoningEngine 0)) ''modus_ponens'' of
      None \<Rightarrow> None
    | Some r \<Rightarrow> map_option snd (applyRule simple_regexp ''if rain then wet'' r))
   = Some (''w'', 0.9)"
  by code_simp

subsection \<open>Depth of forward chaining\<close>

lemma rule_steps_within_append:
  "rule_steps_within lo hi (xs @ ys) \<longleftrightarrow> rule_steps_within lo hi xs \<and> rule_steps_within lo hi ys"
  by (simp add: rule_steps_within_def)

lemma rule_steps_within_mono:
  "rule_steps_within lo hi new \<Longrightarrow> lo' \<le> lo \<Longrightarrow> rule_steps_within lo' hi new"
  unfolding rule_steps_within_def list_all_iff
  by (auto split: step.splits)

lemma extends_by_refl: "extends_by lo hi b et et"
  by (simp add: extends_by_def rule_steps_within_def)

lemma extends_by_weaken: "extends_by lo hi b et et' \<Longrightarrow> b \<le> b' \<Longrightarrow> extends_by lo hi b' et et'"
  unfolding extends_by_def by (meson le_trans)

lemma keys_update_present:
  "map_of al k = Some v \<Longrightarrow> map fst (AList.update k v' al) = map fst al"
proof -
  assume "map_of al k = Some v"
  then have "k \<in> set (map fst al)" by (metis map_of_eq_None_iff option.distinct(1) set_map)
  then show ?thesis by (simp add: update_keys)
qed

text \<open>One firing of a rule inside the loop, followed by the recursive call and the rest
  of the loop.\<close>

lemma extends_by_fire:
  assumes k: "map fst (rules e1) = map fst (rules e)"
    and s1: "steps t2 = steps t @ [RuleApplication name content conf depth]"
    and d: "depth < maxDepth"
    and r: "extends_by (depth + 1) maxDepth b1 (e1, t2) (e2, t3)"
    and l: "extends_by depth maxDepth b2 (e2, t3) (e', t')"
  shows "extends_by depth maxDepth (Suc (b1 + b2)) (e, t) (e', t')"
proof -
  obtain n1 where n1: "steps t3 = steps t2 @ n1" "rule_steps_within (depth + 1) maxDepth n1"
    "length n1 \<le> b1" and k1: "map fst (rules e2) = map fst (rules e1)"
    using r by (auto simp: extends_by_def)
  obtain n2 where n2: "steps t' = steps t3 @ n2" "rule_steps_within depth maxDepth n2"
    "length n2 \<le> b2" and k2: "map fst (rules e') = map fst (rules e2)"
    using l by (auto simp: extends_by_def)
  let ?new = "RuleApplication name content conf depth # n1 @ n2"
  have a: "steps t' = steps t @ ?new" using s1 n1(1) n2(1) by simp
  have "rule_steps_within depth maxDepth n1"
    using n1(2) by (rule rule_steps_within_mono) simp
  then have b: "rule_steps_within depth maxDepth ?new"
    using n2(2) d by (simp add: rule_steps_within_def)
  have c: "length ?new \<le> Suc (b1 + b2)" using n1(3) n2(3) by simp
  show ?thesis unfolding extends_by_def using a b c k k1 k2 by auto
qed

lemma applyRules_extends:
  shows "\<forall>et'. applyRules rx query depth maxDepth et = Inr et' \<longrightarrow>
           extends_by depth maxDepth
             (step_bound (length (rules (fst et))) (nat (maxDepth - depth))) et et'"
    and "depth < maxDepth \<longrightarrow>
         (\<forall>et'. applyRules_loop rx ruleNames query depth maxDepth et = Inr et' \<longrightarrow>
           extends_by depth maxDepth
             (length ruleNames *
                Suc (step_bound (length (rules (fst et))) (nat (maxDepth - depth - 1)))) et et')"
proof (induction rx query depth maxDepth et and rx ruleNames query depth maxDepth et
       rule: applyRules_applyRules_loop.induct)
  case (1 rx query depth maxDepth e t)
  show ?case
  proof (cases "depth \<ge> maxDepth")
    case True
    then show ?thesis by (simp add: extends_by_refl)
  next
    case False
    then have s: "nat (maxDepth - depth) = Suc (nat (maxDepth - depth - 1))" by simp
    have "step_bound (length (rules e)) (nat (maxDepth - depth)) =
          length (map fst (rules e)) *
            Suc (step_bound (length (rules e)) (nat (maxDepth - depth - 1)))"
      unfolding s by simp
    then show ?thesis using False "1.IH" by simp
  qed
next
  case (2 rx query depth maxDepth e t)
  show ?case by (simp add: extends_by_refl)
next
  case (3 rx ruleName ruleNames query depth maxDepth e t)
  let ?B = "Suc (step_bound (length (rules e)) (nat (maxDepth - depth - 1)))"
  show ?case
  proof (intro impI allI)
    fix et'
    assume d: "depth < maxDepth"
      and res: "applyRules_loop rx (ruleName # ruleNames) query depth maxDepth (e, t) = Inr et'"
    have le: "length ruleNames * ?B \<le> length (ruleName # ruleNames) * ?B"
      by (rule mult_le_mono1) simp
    have skip: "extends_by depth maxDepth (length ruleNames * ?B) (e, t) et' \<Longrightarrow>
                extends_by depth maxDepth (length (ruleName # ruleNames) * ?B) (e, t) et'"
      using le by (rule extends_by_weaken [rotated])
    show "extends_by depth maxDepth
            (length (ruleName # ruleNames) *
               Suc (step_bound (length (rules (fst (e, t)))) (nat (maxDepth - depth - 1))))
            (e, t) et'"
    proof (cases "map_of (rules e) ruleName")
      case None
      then have "applyRules_loop rx ruleNames query depth maxDepth (e, t) = Inr et'"
        using res by simp
      then show ?thesis using "3.IH"(1) [OF None] d skip by simp
    next
      case (Some r)
      show ?thesis
      proof (cases "matchesRule rx query r")
        case (Inl err)
        then show ?thesis using res Some by simp
      next
        case (Inr b)
        show ?thesis
        proof (cases b)
          case False
          then have bf: "b = False" by simp
          have "applyRules_loop rx ruleNames query depth maxDepth (e, t) = Inr et'"
            using res Some Inr bf by simp
          then show ?thesis using "3.IH"(5) [OF Some Inr bf] d skip by simp
        next
          case True
          then have bt: "b = True" by simp
          show ?thesis
          proof (cases "applyRule rx query r")
            case None
            then have "applyRules_loop rx ruleNames query depth maxDepth (e, t) = Inr et'"
              using res Some Inr True by simp
            then show ?thesis using "3.IH"(2) [OF Some Inr bt None] d skip by simp
          next
            case (Some fired)
            obtain r' content conf where f: "fired = (r', content, conf)" by (cases fired)
            let ?e1 = "e\<lparr> rules := AList.update ruleName r' (rules e) \<rparr>"
            let ?t1 = "t\<lparr> steps := steps t @ [RuleApplication ruleName content conf depth] \<rparr>"
            let ?t2 = "if JString content \<in> set (conclusions ?t1) then ?t1
                       else add_conclusion (JString content) conf ?t1"
            have s2: "steps ?t2 = steps t @ [RuleApplication ruleName content conf depth]"
              by (simp add: add_conclusion_def)
            have k1: "map fst (rules ?e1) = map fst (rules e)"
              using \<open>map_of (rules e) ruleName = Some r\<close> by (simp add: keys_update_present)
            then have len1: "length (rules ?e1) = length (rules e)" by (metis length_map)
            obtain e2 t3 where rec: "applyRules rx content (depth + 1) maxDepth (?e1, ?t2) = Inr (e2, t3)"
              and rest: "applyRules_loop rx ruleNames query depth maxDepth (e2, t3) = Inr et'"
              using res \<open>map_of (rules e) ruleName = Some r\<close> Inr bt Some f
              by (auto simp: Let_def simp del: applyRules.simps split: sum.splits)
            have ih3: "extends_by (depth + 1) maxDepth
                   (step_bound (length (rules ?e1)) (nat (maxDepth - (depth + 1)))) (?e1, ?t2) (e2, t3)"
              using "3.IH"(3) [OF \<open>map_of (rules e) ruleName = Some r\<close> Inr bt Some f [symmetric] refl refl refl refl]
                rec by simp
            then have k2: "map fst (rules e2) = map fst (rules e)"
              using k1 by (simp add: extends_by_def)
            then have len2: "length (rules e2) = length (rules e)" by (metis length_map)
            have ih4: "extends_by depth maxDepth
                   (length ruleNames * Suc (step_bound (length (rules e2)) (nat (maxDepth - depth - 1))))
                   (e2, t3) et'"
              using "3.IH"(4) [OF \<open>map_of (rules e) ruleName = Some r\<close> Inr bt Some f [symmetric] refl refl refl refl rec refl]
                d rest by simp
            obtain e' t' where et': "et' = (e', t')" by (cases et')
            have m: "maxDepth - (depth + 1) = maxDepth - depth - 1" by simp
            have ih3': "extends_by (depth + 1) maxDepth
                   (step_bound (length (rules e)) (nat (maxDepth - depth - 1))) (?e1, ?t2) (e2, t3)"
              using ih3 unfolding len1 m .
            have ih4': "extends_by depth maxDepth (length ruleNames * ?B) (e2, t3) (e', t')"
              using ih4 unfolding len2 et' .
            note fire = extends_by_fire [OF k1 s2 d ih3' ih4']
            have "Suc (step_bound (length (rules e)) (nat (maxDepth - depth - 1)) +
                       length ruleNames * ?B) \<le> length (ruleName # ruleNames) * ?B"
              by simp
            with fire have "extends_by depth maxDepth (length (ruleName # ruleNames) * ?B)
                              (e, t) (e', t')"
              by (rule extends_by_weaken)
            then show ?thesis unfolding et' by simp
          qed
        qed
      qed
    qed
  qed
qed

lemma applyRules_terminates: "applyRules_applyRules_loop_dom x"
proof -
  have "All applyRules_applyRules_loop_dom"
    by (relation "inv_image (less_than <*lex*> less_than)
        (\<lambda>x. case x of
           Inl (rx, query, depth, maxDepth, (e, t)) \<Rightarrow>
             (nat (maxDepth - depth),
              if depth \<ge> maxDepth then 0 else length (rules e) + 2)
         | Inr (rx, ruleNames, query, depth, maxDepth, (e, t)) \<Rightarrow>
             (nat (maxDepth - depth), length ruleNames + 1))")
       auto
  then show ?thesis by simp
qed

text \<open>
  Claim C5. For every rule set (a self-referential rule included), every regular-expression
  engine, every query and every \<open>maxDepth = D\<close>, a call of \<^verbatim>\<open>applyRules\<close> terminates: it
  lies in the domain of the recursion. When it returns, all it has done to the trace is
  to append rule applications, each made at a depth from the starting depth up to, and
  not including, \<open>D\<close> (a call entered at depth \<open>D\<close> or beyond returns at once), and with
  \<open>n\<close> rules it has appended at most \<open>n + n\<^sup>2 + \<dots>\<close> of them, one power for each level
  left, however many rules match at each level.
\<close>

theorem applyRules_depth_bound:
  "applyRules_applyRules_loop_dom (Inl (rx, query, depth, maxDepth, (e, t)))
   \<and> (\<forall>e' t'. applyRules rx query depth maxDepth (e, t) = Inr (e', t') \<longrightarrow>
         (\<exists>new. steps t' = steps t @ new \<and> rule_steps_within depth maxDepth new \<and>
                length new \<le> step_bound (length (rules e)) (nat (maxDepth - depth))))"
proof -
  have "\<forall>e' t'. applyRules rx query depth maxDepth (e, t) = Inr (e', t') \<longrightarrow>
         (\<exists>new. steps t' = steps t @ new \<and> rule_steps_within depth maxDepth new \<and>
                length new \<le> step_bound (length (rules e)) (nat (maxDepth - depth)))"
    using applyRules_extends(1) [of rx query depth maxDepth "(e, t)"]
    by (simp add: extends_by_def del: applyRules.simps)
  then show ?thesis using applyRules_terminates by blast
qed

text \<open>
  A self-referential rule: from \<^verbatim>\<open>x again\<close> the rule \<^verbatim>\<open>{A} again\<close> concludes
  \<^verbatim>\<open>x again again\<close>, which matches the rule again. With \<open>maxDepth = 3\<close> it fires at
  depths 0, 1 and 2 and stops.
\<close>

theorem applyRules_depth_bound_witness:
  "(\<exists>e' t'. applyRules simple_regexp ''x again'' 0 3
       (\<lparr> rules = [(''echo'', \<lparr> rule_pattern = [''{A} again''],
                                 rule_conclusion = ''{A} again again'', rule_confidence = 1,
                                 rule_name = ''echo'', rule_createdAt = 0, usageCount = 0 \<rparr>)],
          facts = [], reasoningHistory = [] \<rparr>,
        \<lparr> rc_query = ''x again'', startTime = 0, steps = [], conclusions = [],
          confidence = 0, endTime = None, merged = [] \<rparr>) = Inr (e', t') \<and>
     steps t' = [RuleApplication ''echo'' ''x again again'' 1 0,
                 RuleApplication ''echo'' ''x again again'' 1 1,
                 RuleApplication ''echo'' ''x again again'' 1 2] \<and>
     rule_steps_within 0 3 (steps t') \<and> length (steps t') \<le> step_bound 1 3)"
proof -
  let ?r = "\<lparr> rule_pattern = [''{A} again''],
              rule_conclusion = ''{A} again again'', rule_confidence = 1,
              rule_name = ''echo'', rule_createdAt = 0, usageCount = 0 \<rparr>"
  let ?e = "\<lparr> rules = [(''echo'', ?r)], facts = [], reasoningHistory = [] \<rparr>"
  let ?t = "\<lparr> rc_query = ''x again'', startTime = 0, steps = [], conclusions = [],
              confidence = 0, endTime = None, merged = [] \<rparr>"
  let ?e' = "\<lparr> rules = [(''echo'', ?r\<lparr> usageCount := 3 \<rparr>)], facts = [],
               reasoningHistory = [] \<rparr>"
  let ?t' = "\<lparr> rc_query = ''x again'', startTime = 0,
               steps = [RuleApplication ''echo'' ''x again again'' 1 0,
                        RuleApplication ''echo'' ''x again again'' 1 1,
                        RuleApplication ''echo'' ''x again again'' 1 2],
               conclusions = [JString ''x again again''],
               confidence = 1, endTime = None, merged = [1] \<rparr>"
  have ev: "applyRules simple_regexp ''x again'' 0 3 (?e, ?t) = Inr (?e', ?t')"
    by code_simp
  from applyRules_depth_bound [of simple_regexp "''x again''" 0 3 ?e ?t] ev
  obtain new where "steps ?t' = steps ?t @ new" "rule_steps_within 0 3 new"
    "length new \<le> step_bound (length (rules ?e)) (nat (3 - 0))" by blast
  then have "rule_steps_within 0 3 (steps ?t')" "length (steps ?t') \<le> step_bound 1 3"
    by simp_all
  with ev show ?thesis by (intro exI [of _ ?e'] exI [of _ ?t']) simp
qed

subsection \<open>Max-confidence merge\<close>

lemma max_merged_steps [simp]: "max_merged (t\<lparr> steps := s \<rparr>) = max_merged t"
  by (simp add: max_merged_def)

lemma max_merged_endTime [simp]: "max_merged (t\<lparr> endTime := s \<rparr>) = max_merged t"
  by (simp add: max_merged_def)

lemma max_merged_start:
  "max_merged \<lparr> rc_query = query, startTime = now, steps = [], conclusions = [],
                 confidence = 0, endTime = None, merged = [] \<rparr>"
  by (simp add: max_merged_def)

lemma max_merged_assign:
  assumes "max_merged t" "conclusions t = []"
  shows "max_merged (t\<lparr> conclusions := conclusions t @ [content], confidence := conf,
                        merged := merged t @ [conf] \<rparr>)"
proof -
  have "merged t = []" using assms by (simp add: max_merged_def)
  then show ?thesis using assms by (simp add: max_merged_def)
qed

lemma add_conclusion_max_merged:
  assumes "max_merged t"
  shows "max_merged (add_conclusion content conf t)"
proof (cases "merged t = []")
  case True
  then have "confidence t = 0" using assms by (simp add: max_merged_def)
  then show ?thesis using assms True
    by (auto simp: max_merged_def add_conclusion_def max_def)
next
  case False
  define M where "M = Max (set (merged t))"
  define c where "c = confidence t"
  have f: "finite (set (merged t))" and n: "set (merged t) \<noteq> {}" using False by simp_all
  have mx: "Max (set (merged t @ [conf])) = max conf M"
    unfolding M_def using f n by (simp add: Max_insert)
  have len: "length (merged t) = length (conclusions t)"
    using assms by (simp add: max_merged_def)
  have old: "c = M \<or> (M < 0 \<and> c = 0)"
    using assms False unfolding max_merged_def M_def c_def by auto
  have new: "max c conf = max conf M \<or> (max conf M < 0 \<and> max c conf = 0)"
    using old by (auto simp: max_def)
  have "max_merged (add_conclusion content conf t) \<longleftrightarrow>
          length (merged t) = length (conclusions t) \<and>
          (max c conf = Max (set (merged t @ [conf])) \<or>
           (Max (set (merged t @ [conf])) < 0 \<and> max c conf = 0))"
    unfolding max_merged_def add_conclusion_def c_def by simp
  then show ?thesis unfolding mx using len new by simp
qed

lemma applyRules_max_merged:
  shows "max_merged (snd et) \<longrightarrow>
         (\<forall>et'. applyRules rx query depth maxDepth et = Inr et' \<longrightarrow> max_merged (snd et'))"
    and "max_merged (snd et) \<longrightarrow>
         (\<forall>et'. applyRules_loop rx ruleNames query depth maxDepth et = Inr et' \<longrightarrow>
                max_merged (snd et'))"
proof (induction rx query depth maxDepth et and rx ruleNames query depth maxDepth et
       rule: applyRules_applyRules_loop.induct)
  case (1 rx query depth maxDepth e t)
  then show ?case by simp
next
  case (2 rx query depth maxDepth e t)
  show ?case by simp
next
  case (3 rx ruleName ruleNames query depth maxDepth e t)
  show ?case
  proof (intro impI allI)
    fix et'
    assume inv: "max_merged (snd (e, t))"
      and res: "applyRules_loop rx (ruleName # ruleNames) query depth maxDepth (e, t) = Inr et'"
    show "max_merged (snd et')"
    proof (cases "map_of (rules e) ruleName")
      case None
      then have "applyRules_loop rx ruleNames query depth maxDepth (e, t) = Inr et'"
        using res by simp
      then show ?thesis using "3.IH"(1) [OF None] inv by simp
    next
      case (Some r)
      show ?thesis
      proof (cases "matchesRule rx query r")
        case (Inl err)
        then show ?thesis using res Some by simp
      next
        case (Inr b)
        show ?thesis
        proof (cases b)
          case False
          then have bf: "b = False" by simp
          have "applyRules_loop rx ruleNames query depth maxDepth (e, t) = Inr et'"
            using res Some Inr bf by simp
          then show ?thesis using "3.IH"(5) [OF Some Inr bf] inv by simp
        next
          case True
          then have bt: "b = True" by simp
          show ?thesis
          proof (cases "applyRule rx query r")
            case None
            then have "applyRules_loop rx ruleNames query depth maxDepth (e, t) = Inr et'"
              using res Some Inr bt by simp
            then show ?thesis using "3.IH"(2) [OF Some Inr bt None] inv by simp
          next
            case (Some fired)
            obtain r' content conf where f: "fired = (r', content, conf)" by (cases fired)
            let ?e1 = "e\<lparr> rules := AList.update ruleName r' (rules e) \<rparr>"
            let ?t1 = "t\<lparr> steps := steps t @ [RuleApplication ruleName content conf depth] \<rparr>"
            let ?t2 = "if JString content \<in> set (conclusions ?t1) then ?t1
                       else add_conclusion (JString content) conf ?t1"
            have i2: "max_merged ?t2" using inv by (simp add: add_conclusion_max_merged)
            obtain e2 t3 where rec: "applyRules rx content (depth + 1) maxDepth (?e1, ?t2) = Inr (e2, t3)"
              and rest: "applyRules_loop rx ruleNames query depth maxDepth (e2, t3) = Inr et'"
              using res \<open>map_of (rules e) ruleName = Some r\<close> Inr bt Some f
              by (auto simp: Let_def simp del: applyRules.simps split: sum.splits)
            have i3: "max_merged t3"
              using "3.IH"(3) [OF \<open>map_of (rules e) ruleName = Some r\<close> Inr bt Some f [symmetric] refl refl refl refl]
                rec i2 by simp
            show ?thesis
              using "3.IH"(4) [OF \<open>map_of (rules e) ruleName = Some r\<close> Inr bt Some f [symmetric] refl refl refl refl rec refl]
                rest i3 by simp
          qed
        qed
      qed
    qed
  qed
qed

lemma direct_fact_max_merged:
  "max_merged t \<Longrightarrow> conclusions t = [] \<Longrightarrow> max_merged (direct_fact directFacts t)"
  by (cases directFacts) (auto simp: direct_fact_def max_merged_def)

lemma memory_recall_max_merged:
  "max_merged t \<Longrightarrow> max_merged (memory_recall memoryResults t)"
  by (cases memoryResults) (auto simp: memory_recall_def Let_def max_merged_def)

lemma pattern_result_max_merged:
  "max_merged t \<Longrightarrow> max_merged (fst (pattern_result source res t))"
  by (simp add: pattern_result_def Let_def add_conclusion_max_merged)

lemma patternMatching_max_merged:
  "max_merged (fst tm) \<Longrightarrow> max_merged (fst (patternMatching lc query now tm))"
  by (simp add: patternMatching_def Let_def pattern_result_max_merged split: option.splits)

lemma analogy_loop_max_merged:
  "max_merged t \<Longrightarrow> analogy_loop lc query mems t = Inr t' \<Longrightarrow> max_merged t'"
proof (induction mems arbitrary: t)
  case Nil
  then show ?case by simp
next
  case (Cons mem mems)
  show ?case
  proof (cases "findAnalogy lc query (r_content mem)")
    case (Inl err)
    then show ?thesis using Cons.prems by simp
  next
    case (Inr found)
    show ?thesis
    proof (cases found)
      case None
      then show ?thesis using Cons Inr by simp
    next
      case (Some a)
      obtain content conf where a: "a = (content, conf)" by (cases a)
      let ?t1 = "t\<lparr> steps := steps t @ [AnalogicalReasoning (r_content mem) content conf] \<rparr>"
      have i1: "max_merged ?t1" using Cons.prems(1) by simp
      show ?thesis
      proof (cases "some_includes (conclusions ?t1) content")
        case (Inl err)
        then show ?thesis using Cons.prems Inr Some a by (simp add: Let_def)
      next
        case (Inr dup)
        show ?thesis
        proof (cases dup)
          case True
          then have "analogy_loop lc query mems ?t1 = Inr t'"
            using Cons.prems(2) \<open>findAnalogy lc query (r_content mem) = Inr found\<close> Some a Inr
            by (simp add: Let_def)
          then show ?thesis using Cons.IH i1 by blast
        next
          case False
          let ?t2 = "add_conclusion (JString (''Based on analogy: '' @ content)) (conf * 0.7) ?t1"
          have "analogy_loop lc query mems ?t2 = Inr t'"
            using Cons.prems(2) \<open>findAnalogy lc query (r_content mem) = Inr found\<close> Some a Inr False
            by (simp add: Let_def)
          moreover have "max_merged ?t2" using i1 by (rule add_conclusion_max_merged)
          ultimately show ?thesis using Cons.IH by blast
        qed
      qed
    qed
  qed
qed

lemma analogicalReasoning_max_merged:
  "max_merged (fst tm) \<Longrightarrow> analogicalReasoning lc query now tm = Inr (t', m') \<Longrightarrow> max_merged t'"
  by (auto simp: analogicalReasoning_def Let_def split: prod.splits sum.splits
           dest: analogy_loop_max_merged)

text \<open>
  Claim C4, as amended. In the trace that \<^verbatim>\<open>reason\<close> returns, every conclusion was pushed
  together with one confidence, and the aggregate confidence is the maximum of these
  confidences (0 if there is none), or else every one of them is negative and the
  aggregate is 0. So the aggregate is the maximum as soon as one merged confidence is at
  least 0, and it is never a sum or a mean. This holds for every regular-expression
  engine.
\<close>

theorem reason_max_merge:
  assumes "reason lc rx query maxDepth now (m, e) = Inr (t, m', e')"
  shows "length (merged t) = length (conclusions t)
       \<and> (confidence t = (if merged t = [] then 0 else Max (set (merged t)))
          \<or> (merged t \<noteq> [] \<and> Max (set (merged t)) < 0 \<and> confidence t = 0))"
proof -
  let ?t0 = "\<lparr> rc_query = query, startTime = now, steps = [], conclusions = [],
               confidence = 0, endTime = None, merged = [] \<rparr>"
  obtain directFacts where df: "findRelevantFacts lc query e = Inr directFacts"
    using assms by (auto simp: reason_def Let_def split: sum.splits)
  let ?t1 = "direct_fact directFacts ?t0"
  let ?rec = "recall lc (JString query) ''all'' now m"
  let ?t2 = "memory_recall (fst ?rec) ?t1"
  obtain e1 t3 where ar: "applyRules rx query 0 maxDepth (e, ?t2) = Inr (e1, t3)"
    using assms df by (auto simp: reason_def Let_def simp del: applyRules.simps split: sum.splits)
  obtain t5 m3 where an: "analogicalReasoning lc query now (patternMatching lc query now (t3, snd ?rec))
                            = Inr (t5, m3)"
    and t: "t = t5\<lparr> endTime := Some now \<rparr>"
    using assms df ar by (auto simp: reason_def Let_def simp del: applyRules.simps split: sum.splits)
  have "max_merged ?t1" by (simp add: direct_fact_max_merged max_merged_start)
  then have "max_merged ?t2" by (rule memory_recall_max_merged)
  then have "max_merged t3" using applyRules_max_merged(1) [of "(e, ?t2)" rx query 0 maxDepth] ar
    by (simp del: applyRules.simps)
  then have "max_merged (fst (patternMatching lc query now (t3, snd ?rec)))"
    by (simp add: patternMatching_max_merged)
  then have "max_merged t5" using an by (rule analogicalReasoning_max_merged)
  then have "max_merged t" unfolding t by simp
  then show ?thesis by (simp add: max_merged_def)
qed

text \<open>
  The merge at work on the built-in rules: two rules fire on \<^verbatim>\<open>if rain then wet\<close>, with
  confidences 0.9 and 0.85, and the aggregate is 0.9.
\<close>

theorem reason_max_merge_witness:
  "\<exists>t m' e'.
     reason ascii_lower simple_regexp ''if rain then wet'' 3 5
       (new_Memory \<lparr> cfg_shortTermCapacity = None, cfg_longTermCapacity = None,
                      cfg_episodicCapacity = None \<rparr>, new_ReasoningEngine 0) = Inr (t, m', e') \<and>
     merged t = [0.9, 0.85] \<and> confidence t = Max (set (merged t))"
proof -
  let ?call = "reason ascii_lower simple_regexp ''if rain then wet'' 3 5
       (new_Memory \<lparr> cfg_shortTermCapacity = None, cfg_longTermCapacity = None,
                      cfg_episodicCapacity = None \<rparr>, new_ReasoningEngine 0)"
  let ?t = "\<lparr> rc_query = ''if rain then wet'', startTime = 5,
              steps = [RuleApplication ''modus_ponens'' ''w'' 0.9 0,
                       RuleApplication ''modus_tollens'' ''not rain'' 0.85 0],
              conclusions = [JString ''w'', JString ''not rain''],
              confidence = 0.9, endTime = Some 5, merged = [0.9, 0.85] \<rparr>"
  have "map_sum id fst ?call = Inr ?t" by code_simp
  then obtain m' e' where ev: "?call = Inr (?t, m', e')"
    by (cases ?call) auto
  from reason_max_merge [OF ev] have "confidence ?t = Max (set (merged ?t))" by simp
  with ev show ?thesis by (intro exI [of _ ?t] exI [of _ m'] exI [of _ e']) simp
qed

text \<open>
  Claim C4 as stated fails for a rule of negative confidence. Add to the built-in rules
  one that turns \<^verbatim>\<open>{A} fails\<close> into \<^verbatim>\<open>{A} failed\<close> with confidence -0.5 and ask about
  \<^verbatim>\<open>x fails\<close>: the only step that adds a conclusion merges -0.5, and the aggregate is
  \<^verbatim>\<open>Math.max(0, -0.5)\<close>, that is 0, not -0.5.
\<close>

theorem negative_rule_confidence_counterexample:
  "(case reason ascii_lower simple_regexp ''x fails'' 3 5
       (new_Memory \<lparr> cfg_shortTermCapacity = None, cfg_longTermCapacity = None,
                      cfg_episodicCapacity = None \<rparr>,
        addRule ''doubt'' [''{A} fails''] ''{A} failed'' (- 0.5) 1 (new_ReasoningEngine 0)) of
      Inl err \<Rightarrow> False
    | Inr (t, m', e') \<Rightarrow>
        conclusions t = [JString ''x failed''] \<and> merged t = [- 0.5] \<and> confidence t = 0)"
  by code_simp

end
